theory Spec2Isabelle
  imports Main "HOL-Library.Multiset" "HOL-Library.AList"
begin

section \<open>Naming utilities (generators/ir/utils.ts)\<close>

text \<open>
  JavaScript strings are modelled as \<^typ>\<open>string\<close>. Every property below concerns
  strings over the identifier alphabet, which is ASCII, where a \<^typ>\<open>char\<close> is one
  code unit and the case mappings are the ASCII ones; characters outside \<open>a-z\<close>
  and \<open>A-Z\<close> are left alone by the case mappings of the model.
\<close>

definition isLowerAscii :: "char \<Rightarrow> bool" where
  "isLowerAscii c = (97 \<le> (of_char c :: nat) \<and> (of_char c :: nat) \<le> 122)"

definition isUpperAscii :: "char \<Rightarrow> bool" where
  "isUpperAscii c = (65 \<le> (of_char c :: nat) \<and> (of_char c :: nat) \<le> 90)"

definition isDigitAscii :: "char \<Rightarrow> bool" where
  "isDigitAscii c = (48 \<le> (of_char c :: nat) \<and> (of_char c :: nat) \<le> 57)"

definition toUpperCaseChar :: "char \<Rightarrow> char" where
  "toUpperCaseChar c = (if isLowerAscii c then char_of ((of_char c :: nat) - 32) else c)"

definition toLowerCaseChar :: "char \<Rightarrow> char" where
  "toLowerCaseChar c = (if isUpperAscii c then char_of ((of_char c :: nat) + 32) else c)"

text \<open>\<open>String.prototype.toUpperCase\<close> and \<open>toLowerCase\<close>.\<close>

definition toUpperCase :: "string \<Rightarrow> string" where
  "toUpperCase s = map toUpperCaseChar s"

definition toLowerCase :: "string \<Rightarrow> string" where
  "toLowerCase s = map toLowerCaseChar s"

text \<open>\<open>s.charAt(0)\<close> is the empty string on the empty string; \<open>s.slice(1)\<close> drops one unit.\<close>

definition charAt0 :: "string \<Rightarrow> string" where
  "charAt0 s = take 1 s"

definition slice1 :: "string \<Rightarrow> string" where
  "slice1 s = drop 1 s"


text \<open>The regular-expression dot matches every unit but a line terminator.\<close>

definition isLineTerminator :: "char \<Rightarrow> bool" where
  "isLineTerminator c = ((of_char c :: nat) = 10 \<or> (of_char c :: nat) = 13)"

text \<open>
  \<open>str.replace(/[-_](.)/g, (_, c) => c.toUpperCase())\<close>: a left-to-right scan for
  non-overlapping matches; a match consumes the separator and the unit after it.
\<close>

fun replaceSeparators :: "string \<Rightarrow> string" where
  "replaceSeparators (x # y # rest) =
     (if (x = CHR ''-'' \<or> x = CHR ''_'') \<and> \<not> isLineTerminator y
      then toUpperCase [y] @ replaceSeparators rest
      else x # replaceSeparators (y # rest))"
| "replaceSeparators [x] = [x]"
| "replaceSeparators [] = []"

text \<open>\<open>.replace(/^(.)/, (_, c) => c.toUpperCase())\<close>: the first unit, unless a line terminator.\<close>

fun replaceFirst :: "string \<Rightarrow> string" where
  "replaceFirst (c # cs) = (if isLineTerminator c then c # cs else toUpperCase [c] @ cs)"
| "replaceFirst [] = []"

definition toPascalCase :: "string \<Rightarrow> string" where
  "toPascalCase str = replaceFirst (replaceSeparators str)"

definition toCamelCase :: "string \<Rightarrow> string" where
  "toCamelCase str =
     (let pascal = toPascalCase str
      in toLowerCase (charAt0 pascal) @ slice1 pascal)"

text \<open>
  \<open>isValidIdentifier\<close>: \<open>/^[a-zA-Z_$][a-zA-Z0-9_$]*$/.test(name)\<close>. Without the
  multiline flag the anchors are the two ends of the input.
\<close>

definition isIdentStart :: "char \<Rightarrow> bool" where
  "isIdentStart c = (isLowerAscii c \<or> isUpperAscii c \<or> c = CHR ''_'' \<or> c = CHR ''$'')"

definition isIdentPart :: "char \<Rightarrow> bool" where
  "isIdentPart c =
     (isLowerAscii c \<or> isUpperAscii c \<or> isDigitAscii c \<or> c = CHR ''_'' \<or> c = CHR ''$'')"

fun isValidIdentifier :: "string \<Rightarrow> bool" where
  "isValidIdentifier [] = False"
| "isValidIdentifier (c # cs) = (isIdentStart c \<and> list_all isIdentPart cs)"

text \<open>\<open>getSafePropertyName\<close>: \<open>isValidIdentifier(name) ? name : `"${name}"`\<close>.\<close>

definition getSafePropertyName :: "string \<Rightarrow> string" where
  "getSafePropertyName name =
     (if isValidIdentifier name then name else [CHR 0x22] @ name @ [CHR 0x22])"

text \<open>
  The identifier grammar \<open>[A-Za-z_$][A-Za-z0-9_$]*\<close> as the specification writes it:
  one start character followed by any number of part characters.
\<close>

inductive matchesIdentifierGrammar :: "string \<Rightarrow> bool" where
  start: "isIdentStart c \<Longrightarrow> matchesIdentifierGrammar [c]"
| part: "matchesIdentifierGrammar s \<Longrightarrow> isIdentPart c \<Longrightarrow> matchesIdentifierGrammar (s @ [c])"







section \<open>Emitter registry (generators/emitters/index.ts)\<close>

text \<open>
  The sources hold two revisions of the registry module, and both are embedded. The
  earlier one, with which the \<open>ValidatorLibrary\<close> type and the registry tests of the
  sources go, registers Zod, Valibot and ArkType; its definitions bear the source's
  names. The later one registers the Effect emitter as well; its definitions bear the
  suffix \<open>_later\<close>. The two differ in the \<open>effect\<close> entries and in nothing else.
\<close>

text \<open>
  Modelled from the spec: the emitter objects \<open>zodEmitter\<close>, \<open>valibotEmitter\<close>,
  \<open>arktypeEmitter\<close> and \<open>effectEmitter\<close>, whose modules the registry imports and the
  sources lack. The specification gives every emitter the interface
  \<open>{library, emit, getImportStatement, getTypeInference}\<close>, with \<open>library\<close> the
  identifier of the validator library, and the registry's tests read \<open>library\<close> of the
  emitters got for \<open>zod\<close>, \<open>valibot\<close> and \<open>arktype\<close> as these identifiers. The registry
  reads no other member, so the record keeps \<open>library\<close> alone.
\<close>

record Emitter =
  library :: string

definition zodEmitter :: Emitter where
  "zodEmitter = \<lparr>library = ''zod''\<rparr>"

definition valibotEmitter :: Emitter where
  "valibotEmitter = \<lparr>library = ''valibot''\<rparr>"

definition arktypeEmitter :: Emitter where
  "arktypeEmitter = \<lparr>library = ''arktype''\<rparr>"

definition effectEmitter :: Emitter where
  "effectEmitter = \<lparr>library = ''effect''\<rparr>"

text \<open>
  \<open>emitters\<close> is an object literal: its own properties in insertion order, which is the
  order \<open>Object.keys\<close> lists them in.
\<close>

definition emitters :: "(string \<times> Emitter) list" where
  "emitters =
     [(''zod'', zodEmitter),
      (''valibot'', valibotEmitter),
      (''arktype'', arktypeEmitter)]"

definition emitters_later :: "(string \<times> Emitter) list" where
  "emitters_later =
     [(''zod'', zodEmitter),
      (''valibot'', valibotEmitter),
      (''arktype'', arktypeEmitter),
      (''effect'', effectEmitter)]"

text \<open>
  The members every object literal inherits from \<open>Object.prototype\<close>. Each of them is
  a function, except \<open>__proto__\<close>, which reads as the prototype object itself: all are
  truthy.
\<close>

definition objectPrototypeKeys :: "string list" where
  "objectPrototypeKeys =
     [''constructor'', ''__defineGetter__'', ''__defineSetter__'', ''hasOwnProperty'',
      ''__lookupGetter__'', ''__lookupSetter__'', ''isPrototypeOf'',
      ''propertyIsEnumerable'', ''toString'', ''valueOf'', ''__proto__'',
      ''toLocaleString'']"

text \<open>
  The value of the property access \<open>emitters[library]\<close>: an own property, else a member
  inherited from \<open>Object.prototype\<close>, else \<open>undefined\<close> (\<open>None\<close>).
\<close>

datatype PropertyValue = Registered Emitter | Inherited string

definition getProperty :: "(string \<times> Emitter) list \<Rightarrow> string \<Rightarrow> PropertyValue option" where
  "getProperty obj key =
     (case map_of obj key of
        Some e \<Rightarrow> Some (Registered e)
      | None \<Rightarrow> if key \<in> set objectPrototypeKeys then Some (Inherited key) else None)"

text \<open>\<open>Array.prototype.join\<close>.\<close>

fun join :: "string \<Rightarrow> string list \<Rightarrow> string" where
  "join sep [] = []"
| "join sep [x] = x"
| "join sep (x # y # ys) = x @ sep @ join sep (y # ys)"

datatype error = Error string

text \<open>
  \<open>getEmitter\<close>, the same text in both revisions:
  \<^verbatim>\<open>const emitter = emitters[library];
  if (!emitter) {
    throw new Error(
      `Unknown validator library: ${library}. Supported libraries: ${Object.keys(emitters).join(", ")}`);
  }
  return emitter;\<close>
\<close>

definition getEmitter :: "string \<Rightarrow> error + PropertyValue" where
  "getEmitter lib =
     (case getProperty emitters lib of
        None \<Rightarrow>
          Inl (Error (''Unknown validator library: '' @ lib @ ''. Supported libraries: ''
                       @ join '', '' (map fst emitters)))
      | Some emitter \<Rightarrow> Inr emitter)"

definition getEmitter_later :: "string \<Rightarrow> error + PropertyValue" where
  "getEmitter_later lib =
     (case getProperty emitters_later lib of
        None \<Rightarrow>
          Inl (Error (''Unknown validator library: '' @ lib @ ''. Supported libraries: ''
                       @ join '', '' (map fst emitters_later)))
      | Some emitter \<Rightarrow> Inr emitter)"

definition isValidatorLibrary :: "string \<Rightarrow> bool" where
  "isValidatorLibrary v = (v = ''zod'' \<or> v = ''valibot'' \<or> v = ''arktype'')"

definition isValidatorLibrary_later :: "string \<Rightarrow> bool" where
  "isValidatorLibrary_later v =
     (v = ''zod'' \<or> v = ''valibot'' \<or> v = ''arktype'' \<or> v = ''effect'')"

definition supportedValidators :: "string list" where
  "supportedValidators = [''zod'', ''valibot'', ''arktype'']"

definition supportedValidators_later :: "string list" where
  "supportedValidators_later = [''zod'', ''valibot'', ''arktype'', ''effect'']"

section \<open>The schema IR (generators/ir/types.ts)\<close>

text \<open>
  \<open>SchemaIR\<close> is a union tagged by \<open>kind\<close>; one constructor stands for each kind. The
  optional \<open>description\<close> and the length, pattern and range constraints are read by no
  function of this development and are left out. The numbers among enum and literal
  values are never inspected either; they are kept as integers.
\<close>

datatype StringFormat = Email | Url | Uuid | Datetime | DateOnly | Time | Ipv4 | Ipv6

datatype Scalar = Str string | Num int | Bool bool

text \<open>
  \<open>properties\<close> is a \<open>Record<string, ObjectPropertyIR>\<close>, kept as the list of its entries
  in the order \<open>Object.values\<close> enumerates them. \<open>additionalProperties\<close> is absent, a
  boolean or a schema.
\<close>

datatype SchemaIR =
    KString "StringFormat option"
  | KNumber "bool option"
  | KBoolean
  | KBigint
  | KNull
  | KUndefined
  | KUnknown
  | KNever
  | KDate
  | KObject "(string \<times> ObjectPropertyIR) list" AdditionalProperties
  | KArray SchemaIR
  | KTuple "SchemaIR list"
  | KRecord SchemaIR SchemaIR
  | KEnum "Scalar list"
  | KLiteral Scalar
  | KUnion "SchemaIR list"
  | KIntersection "SchemaIR list"
  | KRef string
  | KRaw string
and ObjectPropertyIR =
    ObjectPropertyIR (propSchema: SchemaIR) (propRequired: bool)
and AdditionalProperties =
    Absent
  | Flag bool
  | Typed SchemaIR

datatype SchemaCategory =
  CatEnum | CatInput | CatResponse | CatParams | CatFragment | CatComponent | CatVariables

text \<open>
  A JavaScript \<open>Set<string>\<close> iterates in insertion order and holds no element twice. It
  is kept as the list of its elements in that order.
\<close>

type_synonym StringSet = "string list"

definition setAdd :: "string \<Rightarrow> StringSet \<Rightarrow> StringSet" where
  "setAdd x xs = (if x \<in> set xs then xs else xs @ [x])"

definition setDelete :: "string \<Rightarrow> StringSet \<Rightarrow> StringSet" where
  "setDelete x xs = removeAll x xs"

record NamedSchemaIR =
  name :: string
  schema :: SchemaIR
  dependencies :: StringSet
  category :: "SchemaCategory option"

section \<open>Dependency extraction (generators/ir/utils.ts)\<close>

text \<open>
  The inner function \<open>visit\<close> of \<open>extractDependencies\<close> adds to the set \<open>deps\<close> of its
  closure; the set is passed and returned here. Its three \<open>for\<close> loops, over the
  property values and over the items or members, are the two list recursions.
\<close>

function (sequential) visitSchema :: "SchemaIR \<Rightarrow> StringSet \<Rightarrow> StringSet"
  and visitProperties :: "(string \<times> ObjectPropertyIR) list \<Rightarrow> StringSet \<Rightarrow> StringSet"
  and visitAll :: "SchemaIR list \<Rightarrow> StringSet \<Rightarrow> StringSet"
where
  "visitSchema (KRef n) deps = setAdd n deps"
| "visitSchema (KObject props ap) deps =
     (let deps1 = visitProperties props deps
      in case ap of Typed s \<Rightarrow> visitSchema s deps1 | _ \<Rightarrow> deps1)"
| "visitSchema (KArray items) deps = visitSchema items deps"
| "visitSchema (KTuple items) deps = visitAll items deps"
| "visitSchema (KRecord keyType valueType) deps =
     visitSchema valueType (visitSchema keyType deps)"
| "visitSchema (KUnion members) deps = visitAll members deps"
| "visitSchema (KIntersection members) deps = visitAll members deps"
| "visitSchema _ deps = deps"
| "visitProperties [] deps = deps"
| "visitProperties ((k, prop) # props) deps =
     visitProperties props (visitSchema (propSchema prop) deps)"
| "visitAll [] deps = deps"
| "visitAll (s # ss) deps = visitAll ss (visitSchema s deps)"
  by pat_completeness auto

termination
  apply (relation "measure (\<lambda>x. case x of
            Inl (s, _) \<Rightarrow> size s
          | Inr (Inl (props, _)) \<Rightarrow> size_list (size_prod (\<lambda>_. 0) size) props
          | Inr (Inr (ss, _)) \<Rightarrow> size_list size ss)")
              apply auto
  subgoal for p ps by (cases p) simp
  done

definition extractDependencies :: "SchemaIR \<Rightarrow> StringSet" where
  "extractDependencies s = visitSchema s []"

text \<open>
  \<open>createNamedSchema\<close>: the extracted set with the entry's own name deleted.
\<close>

definition createNamedSchema ::
  "string \<Rightarrow> SchemaIR \<Rightarrow> SchemaCategory option \<Rightarrow> NamedSchemaIR" where
  "createNamedSchema nm s cat =
     (let deps = setDelete nm (extractDependencies s)
      in \<lparr>name = nm, schema = s, dependencies = deps, category = cat\<rparr>)"



text \<open>
  The reference names of a schema as the specification words them: the names of the
  \<open>ref\<close> nodes reachable by structural traversal, through object property schemas and a
  schema-valued \<open>additionalProperties\<close>, array items, tuple items, record key and value
  types, and union and intersection members.
\<close>

inductive reaches :: "SchemaIR \<Rightarrow> SchemaIR \<Rightarrow> bool" where
  here: "reaches s s"
| property: "(k, p) \<in> set props \<Longrightarrow> reaches (propSchema p) t \<Longrightarrow> reaches (KObject props ap) t"
| additional: "reaches a t \<Longrightarrow> reaches (KObject props (Typed a)) t"
| array_items: "reaches i t \<Longrightarrow> reaches (KArray i) t"
| tuple_item: "i \<in> set items \<Longrightarrow> reaches i t \<Longrightarrow> reaches (KTuple items) t"
| record_key: "reaches k t \<Longrightarrow> reaches (KRecord k v) t"
| record_value: "reaches v t \<Longrightarrow> reaches (KRecord k v) t"
| union_member: "m \<in> set members \<Longrightarrow> reaches m t \<Longrightarrow> reaches (KUnion members) t"
| intersection_member:
    "m \<in> set members \<Longrightarrow> reaches m t \<Longrightarrow> reaches (KIntersection members) t"

definition refNames :: "SchemaIR \<Rightarrow> string set" where
  "refNames s = {n. reaches s (KRef n)}"

section \<open>Topological sort (generators/ir/utils.ts)\<close>

text \<open>
  \<open>schemaMap\<close> is a JavaScript \<open>Map\<close>: \<open>set\<close> on a key already present replaces the
  value and keeps the key's place, and on a new key appends. It is kept as an
  association list with distinct keys.
\<close>

type_synonym SchemaMap = "(string \<times> NamedSchemaIR) list"

definition mapSet :: "string \<Rightarrow> NamedSchemaIR \<Rightarrow> SchemaMap \<Rightarrow> SchemaMap" where
  "mapSet k v m = AList.update k v m"

definition mapGet :: "SchemaMap \<Rightarrow> string \<Rightarrow> NamedSchemaIR option" where
  "mapGet m k = map_of m k"

definition mapHas :: "SchemaMap \<Rightarrow> string \<Rightarrow> bool" where
  "mapHas m k = (map_of m k \<noteq> None)"

text \<open>\<open>for (const schema of schemas) schemaMap.set(schema.name, schema)\<close>.\<close>

fun buildSchemaMap :: "NamedSchemaIR list \<Rightarrow> SchemaMap \<Rightarrow> SchemaMap" where
  "buildSchemaMap [] m = m"
| "buildSchemaMap (s # ss) m = buildSchemaMap ss (mapSet (name s) s m)"

text \<open>
  The three variables that the inner function \<open>visit\<close> updates: the array \<open>result\<close> and
  the sets \<open>visited\<close> and \<open>visiting\<close>, of which only membership is read.
\<close>

record SortState =
  result :: "NamedSchemaIR list"
  visited :: "string set"
  visiting :: "string set"

text \<open>
  \<open>visit\<close> and its loop over \<open>schema.dependencies\<close>, which calls \<open>visit\<close> on every
  dependency that the map has.
\<close>

function visit :: "SchemaMap \<Rightarrow> string \<Rightarrow> SortState \<Rightarrow> SortState"
  and visitDependencies :: "SchemaMap \<Rightarrow> string list \<Rightarrow> SortState \<Rightarrow> SortState"
where
  "visit m nm st =
     (if nm \<in> visited st then st
      else if nm \<in> visiting st then st
      else case mapGet m nm of
             None \<Rightarrow> st
           | Some s \<Rightarrow>
               let st1 = st\<lparr>visiting := insert nm (visiting st)\<rparr>;
                   st2 = visitDependencies m (dependencies s) st1
               in st2\<lparr>visiting := visiting st2 - {nm},
                       visited := insert nm (visited st2),
                       result := result st2 @ [s]\<rparr>)"
| "visitDependencies m [] st = st"
| "visitDependencies m (dep # deps) st =
     visitDependencies m deps (if mapHas m dep then visit m dep st else st)"
  by pat_completeness auto

text \<open>The measure under which \<open>visit\<close> terminates: the map's keys not being visited.\<close>

definition visitMeasure ::
  "(SchemaMap \<times> string \<times> SortState) + (SchemaMap \<times> string list \<times> SortState)
     \<Rightarrow> nat \<times> nat" where
  "visitMeasure x =
     (case x of
        Inl (m, nm, st) \<Rightarrow> (card (fst ` set m - visiting st), 0)
      | Inr (m, deps, st) \<Rightarrow> (card (fst ` set m - visiting st), Suc (length deps)))"

text \<open>\<open>for (const schema of schemas) visit(schema.name)\<close>.\<close>

fun visitAllEntries :: "SchemaMap \<Rightarrow> NamedSchemaIR list \<Rightarrow> SortState \<Rightarrow> SortState" where
  "visitAllEntries m [] st = st"
| "visitAllEntries m (s # ss) st = visitAllEntries m ss (visit m (name s) st)"

definition topologicalSortSchemas :: "NamedSchemaIR list \<Rightarrow> NamedSchemaIR list" where
  "topologicalSortSchemas schemas =
     (let schemaMap = buildSchemaMap schemas [];
          st0 = \<lparr>result = [], visited = {}, visiting = {}\<rparr>
      in result (visitAllEntries schemaMap schemas st0))"

text \<open>
  The dependency relation among the entries of a list: \<open>a\<close> depends on \<open>b\<close> when an
  entry named \<open>a\<close> has \<open>b\<close> among its dependencies. Its transitive closure is
  transitive dependency; a cycle between \<open>a\<close> and \<open>b\<close> is \<open>a\<close> depending on \<open>b\<close> and \<open>b\<close>
  transitively on \<open>a\<close>.
\<close>

definition dependsOn :: "NamedSchemaIR list \<Rightarrow> (string \<times> string) set" where
  "dependsOn schemas =
     {(a, b). \<exists>s \<in> set schemas. name s = a \<and> b \<in> set (dependencies s)}"

text \<open>The last entry of a list that bears a given name.\<close>

definition lastNamed :: "string \<Rightarrow> NamedSchemaIR list \<Rightarrow> NamedSchemaIR option" where
  "lastNamed nm schemas = find (\<lambda>s. name s = nm) (rev schemas)"

text \<open>
  What the proofs below maintain. A map is keyed when every entry is stored under its own
  name. A state is consistent with a map when \<open>visited\<close> holds exactly the names of the
  entries of \<open>result\<close>, no name occurs twice in \<open>result\<close>, every entry of \<open>result\<close> is the
  map's entry for its name, and no name is both visited and being visited.
\<close>

definition keyed :: "SchemaMap \<Rightarrow> bool" where
  "keyed m = (\<forall>k s. mapGet m k = Some s \<longrightarrow> name s = k)"

definition consistent :: "SchemaMap \<Rightarrow> SortState \<Rightarrow> bool" where
  "consistent m st =
     (visited st = name ` set (result st) \<and>
      distinct (map name (result st)) \<and>
      (\<forall>s \<in> set (result st). mapGet m (name s) = Some s) \<and>
      visited st \<inter> visiting st = {})"

text \<open>The dependency relation that the sort follows: the one read off the map.\<close>

definition mapDeps :: "SchemaMap \<Rightarrow> (string \<times> string) set" where
  "mapDeps m = {(a, b). \<exists>s. mapGet m a = Some s \<and> b \<in> set (dependencies s)}"

text \<open>
  A list is dependency-first when every dependency of an entry that the map has stands
  earlier in the list, or else reaches the entry back through the map.
\<close>

definition dependencyFirst :: "SchemaMap \<Rightarrow> NamedSchemaIR list \<Rightarrow> bool" where
  "dependencyFirst m res =
     (\<forall>i < length res. \<forall>d \<in> set (dependencies (res ! i)). mapHas m d \<longrightarrow>
        (\<exists>j < i. name (res ! j) = d) \<or> (d, name (res ! i)) \<in> (mapDeps m)\<^sup>*)"

text \<open>
  The names of a list in the order of their first occurrence, skipping those of a given
  set: the order in which the keys of a \<open>Map\<close> filled from the list are inserted.
\<close>

fun firstOccurrences :: "string set \<Rightarrow> string list \<Rightarrow> string list" where
  "firstOccurrences seen [] = []"
| "firstOccurrences seen (n # ns) =
     (if n \<in> seen then firstOccurrences seen ns
      else n # firstOccurrences (insert n seen) ns)"

text \<open>
  The order of first visits, as claim C10 words the placing of an entry: the names of a
  list in the order in which the visits that are not cut short return. The names are
  walked in order; a name already entered, or borne by no entry, is passed over; any
  other is entered, the dependencies of the last entry bearing it are walked the same
  way, and then the name is listed. It is stated on names alone, with one set of
  entered names and without a map, to be compared with the sort.
\<close>

function firstVisits ::
  "NamedSchemaIR list \<Rightarrow> string set \<Rightarrow> string list \<Rightarrow> string set \<times> string list" where
  "firstVisits schemas entered [] = (entered, [])"
| "firstVisits schemas entered (n # ns) =
     (if n \<in> entered then firstVisits schemas entered ns
      else case lastNamed n schemas of
             None \<Rightarrow> firstVisits schemas entered ns
           | Some s \<Rightarrow>
               (case firstVisits schemas (insert n entered) (dependencies s) of
                  (entered1, below) \<Rightarrow>
                    (case firstVisits schemas entered1 ns of
                       (entered2, after) \<Rightarrow> (entered2, below @ [n] @ after))))"
  by pat_completeness auto

definition firstVisitOrder :: "NamedSchemaIR list \<Rightarrow> string list" where
  "firstVisitOrder schemas = snd (firstVisits schemas {} (map name schemas))"

section \<open>Scenario entries\<close>

text \<open>
  The entries of the specification's scenarios: \<open>A\<close> referencing \<open>B\<close>; \<open>B\<close> without
  dependencies; \<open>B\<close> referencing \<open>A\<close> back; three entries \<open>P\<close>, \<open>X\<close>, \<open>Y\<close> of which
  only \<open>P\<close> has a dependency, on \<open>Y\<close>; and a second entry named \<open>X\<close>, referencing \<open>Y\<close>.
\<close>

definition entryA :: NamedSchemaIR where
  "entryA = createNamedSchema ''A'' (KRef ''B'') None"

definition entryB :: NamedSchemaIR where
  "entryB = createNamedSchema ''B'' (KString None) None"

definition entryB_back :: NamedSchemaIR where
  "entryB_back = createNamedSchema ''B'' (KRef ''A'') None"

definition entryP :: NamedSchemaIR where
  "entryP = createNamedSchema ''P'' (KArray (KRef ''Y'')) None"

definition entryX :: NamedSchemaIR where
  "entryX = createNamedSchema ''X'' KBoolean None"

definition entryY :: NamedSchemaIR where
  "entryY = createNamedSchema ''Y'' (KNumber None) None"

definition entryX_refY :: NamedSchemaIR where
  "entryX_refY = createNamedSchema ''X'' (KRef ''Y'') None"

section \<open>Optional and nullish properties\<close>








section \<open>Termination of the sort\<close>

text \<open>
  A call of \<open>visit\<close> leaves \<open>visiting\<close> as it found it, wherever the call returns. With
  that, every nested call is on a smaller argument: \<open>visit\<close> enters its loop with one
  more key of the map being visited, and the loop shortens its list.
\<close>

lemma visiting_preserved_dom:
  "visit_visitDependencies_dom (Inl (m, nm, st)) \<Longrightarrow> visiting (visit m nm st) = visiting st"
  "visit_visitDependencies_dom (Inr (m, deps, st)) \<Longrightarrow>
     visiting (visitDependencies m deps st) = visiting st"
proof (induct m nm st and m deps st rule: visit_visitDependencies.pinduct)
  case (1 m nm st)
  then show ?case
    by (auto simp: visit.psimps Let_def split: option.splits)
next
  case (2 m st)
  then show ?case by (simp add: visitDependencies.psimps)
next
  case (3 m dep deps st)
  then show ?case by (auto simp: visitDependencies.psimps split: if_splits)
qed

lemma mapGet_key: "mapGet m k = Some s \<Longrightarrow> k \<in> fst ` set m"
  by (auto simp: mapGet_def dest: map_of_SomeD intro: rev_image_eqI)

termination visit
proof (relation "inv_image (less_than <*lex*> less_than) visitMeasure")
  show "wf (inv_image (less_than <*lex*> less_than) visitMeasure)"
    by (intro wf_inv_image wf_lex_prod wf_less_than)
next
  fix m :: SchemaMap and nm and st st1 :: SortState and s :: NamedSchemaIR
  assume a: "nm \<notin> visited st" "nm \<notin> visiting st" "mapGet m nm = Some s"
    "st1 = st\<lparr>visiting := insert nm (visiting st)\<rparr>"
  have in_keys: "nm \<in> fst ` set m - visiting st" using a mapGet_key by auto
  have "fst ` set m - visiting st1 = (fst ` set m - visiting st) - {nm}"
    using a by auto
  moreover have "finite (fst ` set m - visiting st)" by simp
  ultimately have "card (fst ` set m - visiting st1) < card (fst ` set m - visiting st)"
    using in_keys card_Diff1_less[of "fst ` set m - visiting st" nm] by simp
  then show "(Inr (m, dependencies s, st1), Inl (m, nm, st))
       \<in> inv_image (less_than <*lex*> less_than) visitMeasure"
    by (simp add: visitMeasure_def)
next
  fix m :: SchemaMap and dep deps and st :: SortState
  show "(Inl (m, dep, st), Inr (m, dep # deps, st))
       \<in> inv_image (less_than <*lex*> less_than) visitMeasure"
    by (simp add: visitMeasure_def)
next
  fix m :: SchemaMap and dep deps and st :: SortState
  assume "mapHas m dep \<Longrightarrow> visit_visitDependencies_dom (Inl (m, dep, st))"
  then have "visiting (if mapHas m dep then visit m dep st else st) = visiting st"
    by (simp add: visiting_preserved_dom)
  then show "(Inr (m, deps, if mapHas m dep then visit m dep st else st), Inr (m, dep # deps, st))
       \<in> inv_image (less_than <*lex*> less_than) visitMeasure"
    by (simp add: visitMeasure_def)
qed

declare visit.simps [simp del]

text \<open>
  The walk of first visits never forgets an entered name; so each nested call has fewer
  names left to enter, or as many and a shorter list.
\<close>

lemma lastNamed_key: "lastNamed n S = Some s \<Longrightarrow> n \<in> name ` set S"
proof -
  assume "lastNamed n S = Some s"
  then obtain i where i: "i < length (rev S)" "name (rev S ! i) = n"
    by (auto simp: lastNamed_def find_Some_iff)
  from i(1) have "rev S ! i \<in> set (rev S)" by (rule nth_mem)
  with i(2) show ?thesis by auto
qed

lemma firstVisits_entered_dom:
  "firstVisits_dom (S, E, ns) \<Longrightarrow> E \<subseteq> fst (firstVisits S E ns)"
proof (induct S E ns rule: firstVisits.pinduct)
  case (1 S E)
  then show ?case by (simp add: firstVisits.psimps)
next
  case (2 S E n ns)
  show ?case
  proof (cases "n \<in> E \<or> lastNamed n S = None")
    case True
    then show ?thesis using 2 by (auto simp: firstVisits.psimps)
  next
    case False
    then obtain s where s: "n \<notin> E" "lastNamed n S = Some s" by auto
    obtain E1 o1 where r1: "firstVisits S (insert n E) (dependencies s) = (E1, o1)"
      by (cases "firstVisits S (insert n E) (dependencies s)")
    obtain E2 o2 where r2: "firstVisits S E1 ns = (E2, o2)"
      by (cases "firstVisits S E1 ns")
    from "2.hyps"(4)[OF s] r1 have a: "insert n E \<subseteq> E1" by simp
    from "2.hyps"(5)[OF s r1[symmetric]] r2 have b: "E1 \<subseteq> E2" by simp
    have "firstVisits S E (n # ns) = (E2, o1 @ [n] @ o2)"
      using "2.hyps"(1) s r1 r2 by (simp add: firstVisits.psimps)
    with a b show ?thesis by auto
  qed
qed

termination firstVisits
proof (relation "inv_image (less_than <*lex*> less_than)
    (\<lambda>(S, E, ns). (card (name ` set S - E), length ns))", goal_cases)
  case 1
  show ?case by (intro wf_inv_image wf_lex_prod wf_less_than)
next
  case 2
  show ?case by simp
next
  case 3
  show ?case by simp
next
  case (4 S E n ns s)
  then have "n \<in> name ` set S - E" using lastNamed_key[of n S s] by auto
  moreover have "name ` set S - insert n E = (name ` set S - E) - {n}" by auto
  moreover have "finite (name ` set S - E)" by simp
  ultimately have "card (name ` set S - insert n E) < card (name ` set S - E)"
    using card_Diff1_less[of "name ` set S - E" n] by simp
  then show ?case by simp
next
  case (5 S E n ns s E1 o1)
  from firstVisits_entered_dom[OF 5(4)] 5(3) have "insert n E \<subseteq> E1"
    by (metis fst_conv)
  then have "name ` set S - E1 \<subseteq> name ` set S - E" by auto
  then have "card (name ` set S - E1) \<le> card (name ` set S - E)"
    by (intro card_mono) simp_all
  then show ?case by auto
qed


section \<open>Properties of the naming utilities\<close>

lemma grammar_imp_valid: "matchesIdentifierGrammar s \<Longrightarrow> isValidIdentifier s"
proof (induction rule: matchesIdentifierGrammar.induct)
  case (start c)
  then show ?case by simp
next
  case (part t c)
  from part.IH have "t \<noteq> []" by auto
  then obtain a as where "t = a # as" by (auto simp: neq_Nil_conv)
  with part show ?case by simp
qed

lemma valid_imp_grammar: "isValidIdentifier s \<Longrightarrow> matchesIdentifierGrammar s"
proof (induction s rule: rev_induct)
  case Nil
  then show ?case by simp
next
  case (snoc x xs)
  show ?case
  proof (cases xs)
    case Nil
    with snoc.prems show ?thesis by (auto intro: matchesIdentifierGrammar.start)
  next
    case (Cons a as)
    with snoc.prems have "isValidIdentifier xs" "isIdentPart x" by auto
    with snoc.IH show ?thesis by (auto intro: matchesIdentifierGrammar.part)
  qed
qed

lemma isValidIdentifier_iff_grammar: "isValidIdentifier s \<longleftrightarrow> matchesIdentifierGrammar s"
  using grammar_imp_valid valid_imp_grammar by blast














text \<open>
  Claim C7. \<open>getSafePropertyName\<close> returns the name unchanged if and only if the name
  matches the identifier grammar, and otherwise returns the name between exactly one
  pair of double quotes; \<open>special-name\<close> comes back as \<open>"special-name"\<close>.
\<close>

theorem getSafePropertyName_quotes_once:
  "(getSafePropertyName key = key \<longleftrightarrow> matchesIdentifierGrammar key) \<and>
   (\<not> matchesIdentifierGrammar key \<longrightarrow>
      getSafePropertyName key = [CHR 0x22] @ key @ [CHR 0x22]) \<and>
   getSafePropertyName ''special-name'' = [CHR 0x22] @ ''special-name'' @ [CHR 0x22]"
proof -
  have ex: "getSafePropertyName ''special-name'' = [CHR 0x22] @ ''special-name'' @ [CHR 0x22]"
    by code_simp
  have "[CHR 0x22] @ key @ [CHR 0x22] \<noteq> key"
  proof
    assume "[CHR 0x22] @ key @ [CHR 0x22] = key"
    then have "length ([CHR 0x22] @ key @ [CHR 0x22]) = length key" by simp
    then show False by simp
  qed
  then show ?thesis
    using ex by (simp add: getSafePropertyName_def isValidIdentifier_iff_grammar)
qed

theorem getSafePropertyName_quotes_once_witness:
  "\<not> matchesIdentifierGrammar ''special-name'' \<and>
   getSafePropertyName ''special-name'' = [CHR 0x22] @ ''special-name'' @ [CHR 0x22] \<and>
   matchesIdentifierGrammar ''petId'' \<and> getSafePropertyName ''petId'' = ''petId''"
proof -
  have a: "\<not> isValidIdentifier ''special-name''" by code_simp
  have b: "isValidIdentifier ''petId''" by code_simp
  show ?thesis
    using a b getSafePropertyName_quotes_once [of "''special-name''"]
      getSafePropertyName_quotes_once [of "''petId''"]
    by (simp add: isValidIdentifier_iff_grammar)
qed

section \<open>Properties of the emitter registry\<close>

lemma getProperty_supported:
  "isValidatorLibrary v \<Longrightarrow> getProperty emitters v = Some (Registered \<lparr>library = v\<rparr>)"
  by (auto simp: isValidatorLibrary_def getProperty_def emitters_def zodEmitter_def
      valibotEmitter_def arktypeEmitter_def)

lemma getProperty_supported_later:
  "isValidatorLibrary_later v \<Longrightarrow>
     getProperty emitters_later v = Some (Registered \<lparr>library = v\<rparr>)"
  by (auto simp: isValidatorLibrary_later_def getProperty_def emitters_later_def zodEmitter_def
      valibotEmitter_def arktypeEmitter_def effectEmitter_def)

lemma getProperty_unknown:
  "\<not> isValidatorLibrary v \<Longrightarrow> v \<notin> set objectPrototypeKeys \<Longrightarrow> getProperty emitters v = None"
  by (simp add: isValidatorLibrary_def getProperty_def emitters_def)

lemma getProperty_unknown_later:
  "\<not> isValidatorLibrary_later v \<Longrightarrow> v \<notin> set objectPrototypeKeys \<Longrightarrow>
     getProperty emitters_later v = None"
  by (simp add: isValidatorLibrary_later_def getProperty_def emitters_later_def)

lemma keys_joined:
  "join '', '' (map fst emitters) = ''zod, valibot, arktype''"
  "join '', '' (map fst emitters_later) = ''zod, valibot, arktype, effect''"
  by (simp_all add: emitters_def emitters_later_def)

text \<open>
  Where the lookup does what its guard is written for: a registered name gives its
  emitter, and a name that neither is registered nor names a member of
  \<open>Object.prototype\<close> gives the error that lists the registered names.
\<close>

lemma getEmitter_supported:
  "isValidatorLibrary v \<Longrightarrow> getEmitter v = Inr (Registered \<lparr>library = v\<rparr>)"
  "isValidatorLibrary_later v \<Longrightarrow> getEmitter_later v = Inr (Registered \<lparr>library = v\<rparr>)"
  by (simp_all add: getEmitter_def getEmitter_later_def getProperty_supported
      getProperty_supported_later)

lemma getEmitter_thrown:
  "\<not> isValidatorLibrary v \<Longrightarrow> v \<notin> set objectPrototypeKeys \<Longrightarrow>
     getEmitter v = Inl (Error (''Unknown validator library: '' @ v
                                 @ ''. Supported libraries: zod, valibot, arktype''))"
  "\<not> isValidatorLibrary_later v \<Longrightarrow> v \<notin> set objectPrototypeKeys \<Longrightarrow>
     getEmitter_later v = Inl (Error (''Unknown validator library: '' @ v
                                 @ ''. Supported libraries: zod, valibot, arktype, effect''))"
  by (simp_all add: getEmitter_def getEmitter_later_def getProperty_unknown
      getProperty_unknown_later keys_joined)

text \<open>
  Claim C8, at the input where the code fails it. \<open>getEmitter\<close> is to throw for every
  identifier that is not registered. \<open>toString\<close> is not registered, in either revision,
  and \<open>isValidatorLibrary\<close> rejects it; yet the property access finds the member that
  the registry object inherits from \<open>Object.prototype\<close>, the value is truthy, the guard
  does not fire, and a value that is no emitter is returned instead of the error.
\<close>

theorem getEmitter_toString:
  "\<not> isValidatorLibrary ''toString'' \<and>
   getEmitter ''toString'' = Inr (Inherited ''toString'') \<and>
   \<not> isValidatorLibrary_later ''toString'' \<and>
   getEmitter_later ''toString'' = Inr (Inherited ''toString'')"
proof -
  have k: "''toString'' \<in> set objectPrototypeKeys" by (simp add: objectPrototypeKeys_def)
  have a: "getProperty emitters ''toString'' = Some (Inherited ''toString'')"
    using k by (simp add: getProperty_def emitters_def)
  have b: "getProperty emitters_later ''toString'' = Some (Inherited ''toString'')"
    using k by (simp add: getProperty_def emitters_later_def)
  show ?thesis
    by (simp add: a b getEmitter_def getEmitter_later_def isValidatorLibrary_def
        isValidatorLibrary_later_def)
qed

text \<open>
  Claim C9, as the code has it. In the revision that the types and tests of the sources
  go with, the supported identifiers are exactly \<open>zod\<close>, \<open>valibot\<close> and \<open>arktype\<close>:
  \<open>isValidatorLibrary\<close> holds of these three strings and of no other,
  \<open>supportedValidators\<close> lists these three and nothing else, and \<open>getEmitter\<close> returns the
  registered emitter for each of them. In the later revision the same holds of the four
  identifiers \<open>zod\<close>, \<open>valibot\<close>, \<open>arktype\<close> and \<open>effect\<close>.
\<close>

theorem supported_validators_exact:
  "(isValidatorLibrary v \<longleftrightarrow> v \<in> {''zod'', ''valibot'', ''arktype''}) \<and>
   supportedValidators = [''zod'', ''valibot'', ''arktype''] \<and>
   (\<forall>l \<in> set supportedValidators. getEmitter l = Inr (Registered \<lparr>library = l\<rparr>)) \<and>
   (isValidatorLibrary_later v \<longleftrightarrow> v \<in> {''zod'', ''valibot'', ''arktype'', ''effect''}) \<and>
   supportedValidators_later = [''zod'', ''valibot'', ''arktype'', ''effect''] \<and>
   (\<forall>l \<in> set supportedValidators_later.
      getEmitter_later l = Inr (Registered \<lparr>library = l\<rparr>))"
proof -
  have "\<forall>l \<in> set supportedValidators. isValidatorLibrary l"
    by (simp add: supportedValidators_def isValidatorLibrary_def)
  then have a: "\<forall>l \<in> set supportedValidators. getEmitter l = Inr (Registered \<lparr>library = l\<rparr>)"
    by (simp add: getEmitter_supported)
  have "\<forall>l \<in> set supportedValidators_later. isValidatorLibrary_later l"
    by (simp add: supportedValidators_later_def isValidatorLibrary_later_def)
  then have b: "\<forall>l \<in> set supportedValidators_later.
      getEmitter_later l = Inr (Registered \<lparr>library = l\<rparr>)"
    by (simp add: getEmitter_supported)
  have c: "isValidatorLibrary v \<longleftrightarrow> v \<in> {''zod'', ''valibot'', ''arktype''}"
    by (auto simp: isValidatorLibrary_def)
  have d: "isValidatorLibrary_later v \<longleftrightarrow> v \<in> {''zod'', ''valibot'', ''arktype'', ''effect''}"
    by (auto simp: isValidatorLibrary_later_def)
  from a b c d show ?thesis
    by (simp add: supportedValidators_def supportedValidators_later_def)
qed

theorem supported_validators_exact_witness:
  "''arktype'' \<in> set supportedValidators \<and> isValidatorLibrary ''arktype'' \<and>
   getEmitter ''arktype'' = Inr (Registered arktypeEmitter) \<and>
   ''effect'' \<in> set supportedValidators_later \<and> isValidatorLibrary_later ''effect'' \<and>
   getEmitter_later ''effect'' = Inr (Registered effectEmitter)"
proof -
  have a: "''arktype'' \<in> set supportedValidators" by (simp add: supportedValidators_def)
  have b: "''effect'' \<in> set supportedValidators_later"
    by (simp add: supportedValidators_later_def)
  show ?thesis
    using a b supported_validators_exact [of "''arktype''"]
      supported_validators_exact [of "''effect''"]
    by (auto simp: effectEmitter_def arktypeEmitter_def)
qed

text \<open>
  Claim C9 as stated fails on the earlier revision: \<open>effect\<close> is not among its supported
  identifiers, and \<open>getEmitter\<close> throws for it.
\<close>

theorem effect_unknown_earlier:
  "\<not> isValidatorLibrary ''effect'' \<and> ''effect'' \<notin> set supportedValidators \<and>
   getEmitter ''effect'' =
     Inl (Error ''Unknown validator library: effect. Supported libraries: zod, valibot, arktype'')"
proof -
  have a: "\<not> isValidatorLibrary ''effect''" by (simp add: isValidatorLibrary_def)
  have b: "''effect'' \<notin> set objectPrototypeKeys" by (simp add: objectPrototypeKeys_def)
  from getEmitter_thrown(1)[OF a b] a show ?thesis by (simp add: supportedValidators_def)
qed

section \<open>Properties of dependency extraction\<close>

lemma set_setAdd: "set (setAdd x xs) = insert x (set xs)"
  by (auto simp: setAdd_def)

lemma distinct_setAdd: "distinct xs \<Longrightarrow> distinct (setAdd x xs)"
  by (auto simp: setAdd_def)

inductive_simps reaches_ref_simps:
  "reaches (KString f) (KRef n)"
  "reaches (KNumber i) (KRef n)"
  "reaches KBoolean (KRef n)"
  "reaches KBigint (KRef n)"
  "reaches KNull (KRef n)"
  "reaches KUndefined (KRef n)"
  "reaches KUnknown (KRef n)"
  "reaches KNever (KRef n)"
  "reaches KDate (KRef n)"
  "reaches (KObject props ap) (KRef n)"
  "reaches (KArray i) (KRef n)"
  "reaches (KTuple items) (KRef n)"
  "reaches (KRecord k v) (KRef n)"
  "reaches (KEnum vs) (KRef n)"
  "reaches (KLiteral l) (KRef n)"
  "reaches (KUnion ms) (KRef n)"
  "reaches (KIntersection ms) (KRef n)"
  "reaches (KRef m) (KRef n)"
  "reaches (KRaw c) (KRef n)"

lemma refNames_simps:
  "refNames (KRef n) = {n}"
  "refNames (KObject props ap) =
     (\<Union>(k, p) \<in> set props. refNames (propSchema p)) \<union>
     (case ap of Typed a \<Rightarrow> refNames a | _ \<Rightarrow> {})"
  "refNames (KArray i) = refNames i"
  "refNames (KTuple items) = (\<Union>i \<in> set items. refNames i)"
  "refNames (KRecord k v) = refNames k \<union> refNames v"
  "refNames (KUnion ms) = (\<Union>m \<in> set ms. refNames m)"
  "refNames (KIntersection ms) = (\<Union>m \<in> set ms. refNames m)"
  "refNames (KString f) = {}"
  "refNames (KNumber b) = {}"
  "refNames KBoolean = {}"
  "refNames KBigint = {}"
  "refNames KNull = {}"
  "refNames KUndefined = {}"
  "refNames KUnknown = {}"
  "refNames KNever = {}"
  "refNames KDate = {}"
  "refNames (KEnum vs) = {}"
  "refNames (KLiteral l) = {}"
  "refNames (KRaw c) = {}"
  by (auto simp: refNames_def reaches_ref_simps split: AdditionalProperties.splits)

text \<open>The walk adds exactly the reference names of what it walks over.\<close>

lemma visit_sets:
  "set (visitSchema s deps) = set deps \<union> refNames s"
  "set (visitProperties props deps) =
     set deps \<union> (\<Union>(k, p) \<in> set props. refNames (propSchema p))"
  "set (visitAll ss deps) = set deps \<union> (\<Union>x \<in> set ss. refNames x)"
  by (induction s deps and props deps and ss deps
        rule: visitSchema_visitProperties_visitAll.induct)
     (auto simp: refNames_simps set_setAdd split: AdditionalProperties.splits)

lemma visit_distinct:
  "distinct deps \<Longrightarrow> distinct (visitSchema s deps)"
  "distinct deps \<Longrightarrow> distinct (visitProperties props deps)"
  "distinct deps \<Longrightarrow> distinct (visitAll ss deps)"
  by (induction s deps and props deps and ss deps
        rule: visitSchema_visitProperties_visitAll.induct)
     (auto simp: distinct_setAdd Let_def split: AdditionalProperties.splits)

text \<open>
  Claim C4. For every name and every schema, the entry returned by \<open>createNamedSchema\<close>
  has as dependencies exactly the names of the \<open>ref\<close> nodes structurally reachable in
  the schema, minus the entry's own name. The set holds each name once, and the entry
  keeps the name and the schema it was given.
\<close>

theorem createNamedSchema_dependencies:
  "set (dependencies (createNamedSchema nm s cat)) = refNames s - {nm} \<and>
   distinct (dependencies (createNamedSchema nm s cat)) \<and>
   name (createNamedSchema nm s cat) = nm \<and> schema (createNamedSchema nm s cat) = s"
  using visit_sets(1)[of s "[]"] visit_distinct(1)[of "[]" s]
  by (auto simp: createNamedSchema_def extractDependencies_def setDelete_def
      distinct_removeAll)

theorem createNamedSchema_dependencies_witness:
  "dependencies (createNamedSchema ''Node''
       (KObject [(''next'', ObjectPropertyIR (KRef ''Node'') False),
                 (''owner'', ObjectPropertyIR (KArray (KRef ''User'')) True)] Absent) None)
     = [''User''] \<and>
   refNames (KObject [(''next'', ObjectPropertyIR (KRef ''Node'') False),
                      (''owner'', ObjectPropertyIR (KArray (KRef ''User'')) True)] Absent)
     - {''Node''} = {''User''}"
proof -
  have "dependencies (createNamedSchema ''Node''
       (KObject [(''next'', ObjectPropertyIR (KRef ''Node'') False),
                 (''owner'', ObjectPropertyIR (KArray (KRef ''User'')) True)] Absent) None)
     = [''User'']"
    by (simp add: createNamedSchema_def extractDependencies_def setDelete_def setAdd_def)
  then show ?thesis
    using createNamedSchema_dependencies [of "''Node''"
       "KObject [(''next'', ObjectPropertyIR (KRef ''Node'') False),
                 (''owner'', ObjectPropertyIR (KArray (KRef ''User'')) True)] Absent" None]
    by simp
qed

section \<open>Invariants of the sort\<close>

lemma visiting_preserved:
  "visiting (visit m nm st) = visiting st"
  "visiting (visitDependencies m deps st) = visiting st"
proof (induction m nm st and m deps st rule: visit_visitDependencies.induct)
  case (1 m nm st)
  then show ?case
    by (subst visit.simps) (auto simp: Let_def split: option.splits)
next
  case (2 m st)
  then show ?case by simp
next
  case (3 m dep deps st)
  then show ?case by (auto split: if_splits)
qed

text \<open>A visit that is not cut short, and one that is.\<close>

lemma visit_unfold:
  assumes "nm \<notin> visited st" "nm \<notin> visiting st" "mapGet m nm = Some s"
  shows "visit m nm st =
           (let st2 = visitDependencies m (dependencies s)
                        (st\<lparr>visiting := insert nm (visiting st)\<rparr>)
            in st2\<lparr>visiting := visiting st2 - {nm},
                    visited := insert nm (visited st2),
                    result := result st2 @ [s]\<rparr>)"
  using assms by (subst visit.simps) (simp add: Let_def)

lemma visit_skip:
  "nm \<in> visited st \<or> nm \<in> visiting st \<or> mapGet m nm = None \<Longrightarrow> visit m nm st = st"
  by (subst visit.simps) auto

lemma consistent_preserved:
  "keyed m \<Longrightarrow> consistent m st \<Longrightarrow>
     consistent m (visit m nm st) \<and> (\<exists>ys. result (visit m nm st) = result st @ ys)"
  "keyed m \<Longrightarrow> consistent m st \<Longrightarrow>
     consistent m (visitDependencies m deps st) \<and>
     (\<exists>ys. result (visitDependencies m deps st) = result st @ ys)"
proof (induction m nm st and m deps st rule: visit_visitDependencies.induct)
  case (1 m nm st)
  show ?case
  proof (cases "nm \<in> visited st \<or> nm \<in> visiting st \<or> mapGet m nm = None")
    case True
    then show ?thesis using "1.prems" by (simp add: visit_skip)
  next
    case False
    then obtain s where s: "nm \<notin> visited st" "nm \<notin> visiting st" "mapGet m nm = Some s"
      by auto
    define st1 where "st1 = st\<lparr>visiting := insert nm (visiting st)\<rparr>"
    define st2 where "st2 = visitDependencies m (dependencies s) st1"
    have c1: "consistent m st1"
      using "1.prems"(2) s by (auto simp: consistent_def st1_def)
    from "1.IH"[OF s st1_def "1.prems"(1) c1]
    obtain ys where c2: "consistent m st2" and r2: "result st2 = result st @ ys"
      by (auto simp: st2_def st1_def)
    have v2: "visiting st2 = insert nm (visiting st)"
      by (simp add: st2_def st1_def visiting_preserved)
    have nm2: "nm \<notin> visited st2" using c2 v2 by (auto simp: consistent_def)
    have nms: "name s = nm" using "1.prems"(1) s by (auto simp: keyed_def)
    have eq: "visit m nm st = st2\<lparr>visiting := visiting st2 - {nm},
                    visited := insert nm (visited st2),
                    result := result st2 @ [s]\<rparr>"
      using visit_unfold[OF s] by (simp add: st2_def st1_def Let_def)
    have "consistent m (visit m nm st)"
      unfolding eq using c2 nm2 nms s v2 by (auto simp: consistent_def)
    moreover have "\<exists>zs. result (visit m nm st) = result st @ zs"
      unfolding eq using r2 by simp
    ultimately show ?thesis by blast
  qed
next
  case (2 m st)
  then show ?case by simp
next
  case (3 m dep deps st)
  define st' where "st' = (if mapHas m dep then visit m dep st else st)"
  have a: "consistent m st' \<and> (\<exists>ys. result st' = result st @ ys)"
    using 3 by (auto simp: st'_def)
  then have b: "consistent m (visitDependencies m deps st') \<and>
     (\<exists>ys. result (visitDependencies m deps st') = result st' @ ys)"
    using "3.IH"(2) "3.prems"(1) by (simp add: st'_def)
  from a b show ?case by (auto simp: st'_def)
qed

lemma visited_mono:
  assumes "keyed m" "consistent m st"
  shows "visited st \<subseteq> visited (visit m nm st)"
    and "visited st \<subseteq> visited (visitDependencies m deps st)"
proof -
  from consistent_preserved(1)[OF assms, of nm] assms(2)
  show "visited st \<subseteq> visited (visit m nm st)"
    by (auto simp: consistent_def)
  from consistent_preserved(2)[OF assms, of deps] assms(2)
  show "visited st \<subseteq> visited (visitDependencies m deps st)"
    by (auto simp: consistent_def)
qed

text \<open>A name that the map has is visited once its visit returns, unless it is being visited.\<close>

lemma visit_visits:
  assumes "keyed m" "consistent m st" "mapHas m nm"
  shows "nm \<in> visited (visit m nm st) \<or> nm \<in> visiting st"
proof (cases "nm \<in> visited st \<or> nm \<in> visiting st")
  case True
  then show ?thesis by (auto simp: visit_skip)
next
  case False
  with assms(3) obtain s where s: "nm \<notin> visited st" "nm \<notin> visiting st" "mapGet m nm = Some s"
    by (auto simp: mapHas_def mapGet_def)
  show ?thesis by (simp add: visit_unfold[OF s] Let_def)
qed

lemma visitDependencies_visits:
  "keyed m \<Longrightarrow> consistent m st \<Longrightarrow>
     \<forall>d \<in> set deps. mapHas m d \<longrightarrow>
        d \<in> visited (visitDependencies m deps st) \<or> d \<in> visiting st"
proof (induction deps arbitrary: st)
  case Nil
  then show ?case by simp
next
  case (Cons dep deps)
  define st' where "st' = (if mapHas m dep then visit m dep st else st)"
  have c: "consistent m st'"
    using Cons.prems consistent_preserved(1) by (simp add: st'_def)
  have v: "visiting st' = visiting st" by (simp add: st'_def visiting_preserved)
  have head: "mapHas m dep \<longrightarrow> dep \<in> visited st' \<or> dep \<in> visiting st"
    using visit_visits[OF Cons.prems] by (simp add: st'_def)
  have mono: "visited st' \<subseteq> visited (visitDependencies m deps st')"
    using visited_mono(2)[OF Cons.prems(1) c] .
  from Cons.IH[OF Cons.prems(1) c] v head mono
  show ?case by (auto simp: st'_def)
qed

lemma dependencyFirst_snoc:
  assumes "dependencyFirst m res"
    and "\<forall>d \<in> set (dependencies s). mapHas m d \<longrightarrow>
           d \<in> name ` set res \<or> (d, name s) \<in> (mapDeps m)\<^sup>*"
  shows "dependencyFirst m (res @ [s])"
  unfolding dependencyFirst_def
proof (intro allI impI ballI)
  fix i d
  assume i: "i < length (res @ [s])" and d: "d \<in> set (dependencies ((res @ [s]) ! i))"
    and h: "mapHas m d"
  show "(\<exists>j<i. name ((res @ [s]) ! j) = d) \<or> (d, name ((res @ [s]) ! i)) \<in> (mapDeps m)\<^sup>*"
  proof (cases "i < length res")
    case True
    then have at_i: "(res @ [s]) ! i = res ! i" by (simp add: nth_append)
    with d have d': "d \<in> set (dependencies (res ! i))" by simp
    from assms(1) True d' h
    have "(\<exists>j<i. name (res ! j) = d) \<or> (d, name (res ! i)) \<in> (mapDeps m)\<^sup>*"
      unfolding dependencyFirst_def by blast
    then show ?thesis
    proof
      assume "\<exists>j<i. name (res ! j) = d"
      then obtain j where j: "j < i" "name (res ! j) = d" by blast
      with True have "(res @ [s]) ! j = res ! j" by (simp add: nth_append)
      with j show ?thesis by auto
    next
      assume "(d, name (res ! i)) \<in> (mapDeps m)\<^sup>*"
      with at_i show ?thesis by simp
    qed
  next
    case False
    with i have e: "i = length res" by simp
    then have at_i: "(res @ [s]) ! i = s" by simp
    with d have "d \<in> set (dependencies s)" by simp
    with assms(2) h have "d \<in> name ` set res \<or> (d, name s) \<in> (mapDeps m)\<^sup>*" by blast
    then show ?thesis
    proof
      assume "d \<in> name ` set res"
      then obtain x where "x \<in> set res" "name x = d" by blast
      then obtain j where j: "j < length res" "name (res ! j) = d"
        by (auto simp: in_set_conv_nth)
      then have "(res @ [s]) ! j = res ! j" by (simp add: nth_append)
      with j e show ?thesis by auto
    next
      assume "(d, name s) \<in> (mapDeps m)\<^sup>*"
      with at_i show ?thesis by simp
    qed
  qed
qed
text \<open>
  The ordering invariant. A visit keeps the result dependency-first, provided every name
  being visited reaches the visited name through the map: those names are the callers
  on the stack.
\<close>

lemma dependencyFirst_preserved:
  "keyed m \<Longrightarrow> consistent m st \<Longrightarrow> dependencyFirst m (result st) \<Longrightarrow>
     \<forall>v \<in> visiting st. (v, nm) \<in> (mapDeps m)\<^sup>* \<Longrightarrow>
     dependencyFirst m (result (visit m nm st))"
  "keyed m \<Longrightarrow> consistent m st \<Longrightarrow> dependencyFirst m (result st) \<Longrightarrow>
     \<forall>d \<in> set deps. mapHas m d \<longrightarrow> (\<forall>v \<in> visiting st. (v, d) \<in> (mapDeps m)\<^sup>*) \<Longrightarrow>
     dependencyFirst m (result (visitDependencies m deps st))"
proof (induction m nm st and m deps st rule: visit_visitDependencies.induct)
  case (1 m nm st)
  show ?case
  proof (cases "nm \<in> visited st \<or> nm \<in> visiting st \<or> mapGet m nm = None")
    case True
    then show ?thesis using "1.prems" by (simp add: visit_skip)
  next
    case False
    then obtain s where s: "nm \<notin> visited st" "nm \<notin> visiting st" "mapGet m nm = Some s"
      by auto
    define st1 where "st1 = st\<lparr>visiting := insert nm (visiting st)\<rparr>"
    define st2 where "st2 = visitDependencies m (dependencies s) st1"
    have nms: "name s = nm" using "1.prems"(1) s by (auto simp: keyed_def)
    have c1: "consistent m st1"
      using "1.prems"(2) s by (auto simp: consistent_def st1_def)
    have step: "\<forall>d \<in> set (dependencies s). (nm, d) \<in> mapDeps m"
      using s by (auto simp: mapDeps_def)
    have pre: "\<forall>d \<in> set (dependencies s). mapHas m d \<longrightarrow>
                 (\<forall>v \<in> visiting st1. (v, d) \<in> (mapDeps m)\<^sup>*)"
    proof (intro ballI impI)
      fix d v assume d: "d \<in> set (dependencies s)" and v: "v \<in> visiting st1"
      from v have "(v, nm) \<in> (mapDeps m)\<^sup>*"
        using "1.prems"(4) by (auto simp: st1_def)
      moreover from d step have "(nm, d) \<in> mapDeps m" by blast
      ultimately show "(v, d) \<in> (mapDeps m)\<^sup>*" by (rule rtrancl_into_rtrancl)
    qed
    have d1: "dependencyFirst m (result st1)" using "1.prems"(3) by (simp add: st1_def)
    from "1.IH"[OF s st1_def "1.prems"(1) c1 d1 pre]
    have d2: "dependencyFirst m (result st2)" by (simp add: st2_def)
    have c2: "consistent m st2"
      using consistent_preserved(2)[OF "1.prems"(1) c1] by (simp add: st2_def)
    have after: "\<forall>d \<in> set (dependencies s). mapHas m d \<longrightarrow>
                   d \<in> visited st2 \<or> d \<in> visiting st1"
      using visitDependencies_visits[OF "1.prems"(1) c1] by (simp add: st2_def)
    have "\<forall>d \<in> set (dependencies s). mapHas m d \<longrightarrow>
            d \<in> name ` set (result st2) \<or> (d, name s) \<in> (mapDeps m)\<^sup>*"
    proof (intro ballI impI)
      fix d assume d: "d \<in> set (dependencies s)" and h: "mapHas m d"
      with after have "d \<in> visited st2 \<or> d \<in> visiting st1" by blast
      then show "d \<in> name ` set (result st2) \<or> (d, name s) \<in> (mapDeps m)\<^sup>*"
      proof
        assume "d \<in> visited st2"
        with c2 show ?thesis by (simp add: consistent_def)
      next
        assume "d \<in> visiting st1"
        then have "d = nm \<or> d \<in> visiting st" by (simp add: st1_def)
        with "1.prems"(4) nms show ?thesis by auto
      qed
    qed
    from dependencyFirst_snoc[OF d2 this]
    have d3: "dependencyFirst m (result st2 @ [s])" .
    have eq: "result (visit m nm st) = result st2 @ [s]"
      using visit_unfold[OF s] by (simp add: st2_def st1_def Let_def)
    show ?thesis unfolding eq by (rule d3)
  qed
next
  case (2 m st)
  then show ?case by simp
next
  case (3 m dep deps st)
  define st' where "st' = (if mapHas m dep then visit m dep st else st)"
  have c: "consistent m st'"
    using "3.prems" consistent_preserved(1) by (simp add: st'_def)
  have v: "visiting st' = visiting st" by (simp add: st'_def visiting_preserved)
  have d: "dependencyFirst m (result st')"
    using "3.IH"(1) "3.prems" by (simp add: st'_def)
  have pre: "\<forall>d \<in> set deps. mapHas m d \<longrightarrow> (\<forall>v \<in> visiting st'. (v, d) \<in> (mapDeps m)\<^sup>*)"
    using "3.prems"(4) v by simp
  from "3.IH"(2)[OF "3.prems"(1) c[unfolded st'_def] d[unfolded st'_def] pre[unfolded st'_def]]
  show ?case by simp
qed

text \<open>Whatever a visit adds to \<open>visited\<close> is reachable from the visited name.\<close>

lemma visited_reachable:
  "keyed m \<Longrightarrow> consistent m st \<Longrightarrow>
     visited (visit m nm st) \<subseteq> visited st \<union> (mapDeps m)\<^sup>* `` {nm}"
  "keyed m \<Longrightarrow> consistent m st \<Longrightarrow>
     visited (visitDependencies m deps st) \<subseteq> visited st \<union> (mapDeps m)\<^sup>* `` set deps"
proof (induction m nm st and m deps st rule: visit_visitDependencies.induct)
  case (1 m nm st)
  show ?case
  proof (cases "nm \<in> visited st \<or> nm \<in> visiting st \<or> mapGet m nm = None")
    case True
    then show ?thesis by (simp add: visit_skip)
  next
    case False
    then obtain s where s: "nm \<notin> visited st" "nm \<notin> visiting st" "mapGet m nm = Some s"
      by auto
    define st1 where "st1 = st\<lparr>visiting := insert nm (visiting st)\<rparr>"
    define st2 where "st2 = visitDependencies m (dependencies s) st1"
    have c1: "consistent m st1"
      using "1.prems"(2) s by (auto simp: consistent_def st1_def)
    from "1.IH"[OF s st1_def "1.prems"(1) c1]
    have r2: "visited st2 \<subseteq> visited st \<union> (mapDeps m)\<^sup>* `` set (dependencies s)"
      by (simp add: st2_def st1_def)
    have step: "\<forall>d \<in> set (dependencies s). (nm, d) \<in> mapDeps m"
      using s by (auto simp: mapDeps_def)
    have "(mapDeps m)\<^sup>* `` set (dependencies s) \<subseteq> (mapDeps m)\<^sup>* `` {nm}"
    proof
      fix x assume "x \<in> (mapDeps m)\<^sup>* `` set (dependencies s)"
      then obtain d where "d \<in> set (dependencies s)" "(d, x) \<in> (mapDeps m)\<^sup>*" by auto
      with step have "(nm, d) \<in> mapDeps m" "(d, x) \<in> (mapDeps m)\<^sup>*" by auto
      then have "(nm, x) \<in> (mapDeps m)\<^sup>*"
        by (rule converse_rtrancl_into_rtrancl)
      then show "x \<in> (mapDeps m)\<^sup>* `` {nm}" by simp
    qed
    with r2 have "visited st2 \<subseteq> visited st \<union> (mapDeps m)\<^sup>* `` {nm}" by blast
    moreover have "visited (visit m nm st) = insert nm (visited st2)"
      using visit_unfold[OF s] by (simp add: st2_def st1_def Let_def)
    ultimately show ?thesis by auto
  qed
next
  case (2 m st)
  then show ?case by simp
next
  case (3 m dep deps st)
  define st' where "st' = (if mapHas m dep then visit m dep st else st)"
  have c: "consistent m st'"
    using "3.prems" consistent_preserved(1) by (simp add: st'_def)
  have a: "visited st' \<subseteq> visited st \<union> (mapDeps m)\<^sup>* `` {dep}"
    using "3.IH"(1) "3.prems" by (auto simp: st'_def)
  from "3.IH"(2)[OF "3.prems"(1) c[unfolded st'_def]]
  have b: "visited (visitDependencies m deps st') \<subseteq> visited st' \<union> (mapDeps m)\<^sup>* `` set deps"
    by (simp add: st'_def)
  have fin: "visitDependencies m (dep # deps) st = visitDependencies m deps st'"
    by (simp add: st'_def)
  have img: "(mapDeps m)\<^sup>* `` set (dep # deps)
               = (mapDeps m)\<^sup>* `` {dep} \<union> (mapDeps m)\<^sup>* `` set deps"
    by auto
  show ?case unfolding fin img using a b by blast
qed

section \<open>The schema map and the outer loop\<close>

lemma find_app:
  "find P (xs @ ys) = (case find P xs of None \<Rightarrow> find P ys | Some x \<Rightarrow> Some x)"
  by (induction xs) simp_all

lemma find_Some_set: "find P xs = Some x \<Longrightarrow> P x \<and> x \<in> set xs"
  by (induction xs) (auto split: if_splits)

lemma lastNamed_Cons:
  "lastNamed k (s # ss) =
     (case lastNamed k ss of Some x \<Rightarrow> Some x | None \<Rightarrow> if name s = k then Some s else None)"
  by (simp add: lastNamed_def find_app split: option.splits)

lemma mapGet_mapSet: "mapGet (mapSet k v m) k' = (if k' = k then Some v else mapGet m k')"
  by (simp add: mapGet_def mapSet_def update_conv')

text \<open>The map built from a list holds, under each name, the last entry bearing it.\<close>

lemma mapGet_buildSchemaMap:
  "mapGet (buildSchemaMap ss m0) k =
     (case lastNamed k ss of Some s \<Rightarrow> Some s | None \<Rightarrow> mapGet m0 k)"
proof (induction ss arbitrary: m0)
  case Nil
  then show ?case by (simp add: lastNamed_def)
next
  case (Cons s ss)
  show ?case
    by (simp add: Cons.IH lastNamed_Cons mapGet_mapSet split: option.splits)
qed

lemma mapGet_Nil: "mapGet [] k = None"
  by (simp add: mapGet_def)

lemma mapGet_schemaMap: "mapGet (buildSchemaMap ss []) k = lastNamed k ss"
  by (simp add: mapGet_buildSchemaMap mapGet_Nil split: option.splits)

lemma lastNamed_SomeD: "lastNamed k ss = Some s \<Longrightarrow> name s = k \<and> s \<in> set ss"
  by (auto simp: lastNamed_def dest: find_Some_set)

lemma lastNamed_None: "lastNamed k ss = None \<longleftrightarrow> k \<notin> name ` set ss"
  by (auto simp: lastNamed_def find_None_iff)

lemma lastNamed_distinct:
  "distinct (map name ss) \<Longrightarrow> s \<in> set ss \<Longrightarrow> lastNamed (name s) ss = Some s"
proof -
  assume d: "distinct (map name ss)" and s: "s \<in> set ss"
  from s have "lastNamed (name s) ss \<noteq> None" by (auto simp: lastNamed_None)
  then obtain x where x: "lastNamed (name s) ss = Some x" by auto
  from lastNamed_SomeD[OF x] have "name x = name s" "x \<in> set ss" by auto
  with d s have "x = s" by (meson distinct_map inj_onD)
  with x show ?thesis by simp
qed

lemma keyed_schemaMap: "keyed (buildSchemaMap ss [])"
  by (auto simp: keyed_def mapGet_schemaMap dest: lastNamed_SomeD)

lemma mapHas_schemaMap: "mapHas (buildSchemaMap ss []) k \<longleftrightarrow> k \<in> name ` set ss"
  using lastNamed_None[of k ss] mapGet_schemaMap[of ss k]
  by (auto simp: mapHas_def mapGet_def)

lemma mapDeps_schemaMap: "mapDeps (buildSchemaMap ss []) \<subseteq> dependsOn ss"
  by (auto simp: mapDeps_def dependsOn_def mapGet_schemaMap dest: lastNamed_SomeD)

lemma visitAllEntries_append:
  "visitAllEntries m (xs @ ys) st = visitAllEntries m ys (visitAllEntries m xs st)"
  by (induction xs arbitrary: st) simp_all

text \<open>The outer loop calls \<open>visit\<close> with nothing being visited.\<close>

lemma outer_consistent:
  "keyed m \<Longrightarrow> consistent m st \<Longrightarrow> visiting st = {} \<Longrightarrow>
     consistent m (visitAllEntries m ss st) \<and> visiting (visitAllEntries m ss st) = {} \<and>
     (\<exists>ys. result (visitAllEntries m ss st) = result st @ ys)"
proof (induction ss arbitrary: st)
  case Nil
  then show ?case by simp
next
  case (Cons s ss)
  define st' where "st' = visit m (name s) st"
  from consistent_preserved(1)[OF Cons.prems(1,2), of "name s"]
  obtain ys where c: "consistent m st'" and r: "result st' = result st @ ys"
    by (auto simp: st'_def)
  have v: "visiting st' = {}" using Cons.prems(3) by (simp add: st'_def visiting_preserved)
  from Cons.IH[OF Cons.prems(1) c v] r show ?case by (auto simp: st'_def)
qed

lemma outer_visited_mono:
  assumes "keyed m" "consistent m st" "visiting st = {}"
  shows "visited st \<subseteq> visited (visitAllEntries m ss st)"
  using outer_consistent[OF assms, of ss] assms(2) by (auto simp: consistent_def)

lemma outer_visits:
  "keyed m \<Longrightarrow> consistent m st \<Longrightarrow> visiting st = {} \<Longrightarrow>
     \<forall>s \<in> set ss. mapHas m (name s) \<longrightarrow> name s \<in> visited (visitAllEntries m ss st)"
proof (induction ss arbitrary: st)
  case Nil
  then show ?case by simp
next
  case (Cons s ss)
  define st' where "st' = visit m (name s) st"
  have c: "consistent m st'"
    using consistent_preserved(1)[OF Cons.prems(1,2)] by (simp add: st'_def)
  have v: "visiting st' = {}" using Cons.prems(3) by (simp add: st'_def visiting_preserved)
  have head: "mapHas m (name s) \<longrightarrow> name s \<in> visited st'"
    using visit_visits[OF Cons.prems(1,2)] Cons.prems(3) by (auto simp: st'_def)
  have mono: "visited st' \<subseteq> visited (visitAllEntries m ss st')"
    by (rule outer_visited_mono[OF Cons.prems(1) c v])
  from Cons.IH[OF Cons.prems(1) c v] head mono show ?case by (auto simp: st'_def)
qed

lemma outer_dependencyFirst:
  "keyed m \<Longrightarrow> consistent m st \<Longrightarrow> visiting st = {} \<Longrightarrow> dependencyFirst m (result st) \<Longrightarrow>
     dependencyFirst m (result (visitAllEntries m ss st))"
proof (induction ss arbitrary: st)
  case Nil
  then show ?case by simp
next
  case (Cons s ss)
  define st' where "st' = visit m (name s) st"
  have c: "consistent m st'"
    using consistent_preserved(1)[OF Cons.prems(1,2)] by (simp add: st'_def)
  have v: "visiting st' = {}" using Cons.prems(3) by (simp add: st'_def visiting_preserved)
  have d: "dependencyFirst m (result st')"
    using dependencyFirst_preserved(1)[OF Cons.prems(1,2,4), of "name s"] Cons.prems(3)
    by (simp add: st'_def)
  from Cons.IH[OF Cons.prems(1) c v d] show ?case by (simp add: st'_def)
qed

lemma outer_reachable:
  "keyed m \<Longrightarrow> consistent m st \<Longrightarrow> visiting st = {} \<Longrightarrow>
     visited (visitAllEntries m ss st) \<subseteq> visited st \<union> (mapDeps m)\<^sup>* `` (name ` set ss)"
proof (induction ss arbitrary: st)
  case Nil
  then show ?case by simp
next
  case (Cons s ss)
  define st' where "st' = visit m (name s) st"
  have c: "consistent m st'"
    using consistent_preserved(1)[OF Cons.prems(1,2)] by (simp add: st'_def)
  have v: "visiting st' = {}" using Cons.prems(3) by (simp add: st'_def visiting_preserved)
  have a: "visited st' \<subseteq> visited st \<union> (mapDeps m)\<^sup>* `` {name s}"
    using visited_reachable(1)[OF Cons.prems(1,2)] by (simp add: st'_def)
  have b: "visited (visitAllEntries m ss st') \<subseteq> visited st' \<union> (mapDeps m)\<^sup>* `` (name ` set ss)"
    by (rule Cons.IH[OF Cons.prems(1) c v])
  have fin: "visitAllEntries m (s # ss) st = visitAllEntries m ss st'" by (simp add: st'_def)
  have img: "(mapDeps m)\<^sup>* `` (name ` set (s # ss))
               = (mapDeps m)\<^sup>* `` {name s} \<union> (mapDeps m)\<^sup>* `` (name ` set ss)"
    by auto
  show ?case unfolding fin img using a b by blast
qed

text \<open>The state the sort starts in, and the state it ends in.\<close>

lemma initial_consistent:
  "consistent m \<lparr>result = [], visited = {}, visiting = {}\<rparr>"
  by (simp add: consistent_def)

lemma initial_dependencyFirst: "dependencyFirst m []"
  by (simp add: dependencyFirst_def)

section \<open>Properties of the sort\<close>

lemma distinct_map_nth:
  assumes "distinct (map f xs)" "k < length xs" "j < length xs" "k \<noteq> j"
  shows "f (xs ! k) \<noteq> f (xs ! j)"
proof
  assume "f (xs ! k) = f (xs ! j)"
  with assms(2,3) have e: "map f xs ! k = map f xs ! j" by simp
  have "k < length (map f xs)" "j < length (map f xs)" using assms(2,3) by simp_all
  from nth_eq_iff_index_eq[OF assms(1) this] e have "k = j" by blast
  with assms(4) show False by simp
qed

lemma sort_result:
  "topologicalSortSchemas schemas =
     result (visitAllEntries (buildSchemaMap schemas []) schemas
               \<lparr>result = [], visited = {}, visiting = {}\<rparr>)"
  by (simp add: topologicalSortSchemas_def Let_def)

lemma sort_consistent:
  "consistent (buildSchemaMap schemas [])
     (visitAllEntries (buildSchemaMap schemas []) schemas
        \<lparr>result = [], visited = {}, visiting = {}\<rparr>)"
  using outer_consistent[OF keyed_schemaMap initial_consistent, of schemas schemas] by simp

text \<open>
  The output names each name of the input once, and carries under each name the last
  input entry that bears it.
\<close>

lemma sort_entries:
  "distinct (map name (topologicalSortSchemas schemas))"
  "\<forall>s \<in> set (topologicalSortSchemas schemas). lastNamed (name s) schemas = Some s"
  "name ` set (topologicalSortSchemas schemas) = name ` set schemas"
proof -
  let ?m = "buildSchemaMap schemas []"
  let ?st = "visitAllEntries ?m schemas \<lparr>result = [], visited = {}, visiting = {}\<rparr>"
  have c: "consistent ?m ?st" by (rule sort_consistent)
  show "distinct (map name (topologicalSortSchemas schemas))"
    using c by (simp add: sort_result consistent_def)
  show l: "\<forall>s \<in> set (topologicalSortSchemas schemas). lastNamed (name s) schemas = Some s"
    using c by (simp add: sort_result consistent_def mapGet_schemaMap)
  have "\<forall>s \<in> set schemas. name s \<in> visited ?st"
    using outer_visits[OF keyed_schemaMap initial_consistent, of schemas schemas]
    by (simp add: mapHas_schemaMap)
  then have "name ` set schemas \<subseteq> name ` set (topologicalSortSchemas schemas)"
    using c by (auto simp: sort_result consistent_def)
  moreover have "name ` set (topologicalSortSchemas schemas) \<subseteq> name ` set schemas"
    using l by (auto dest!: bspec lastNamed_SomeD)
  ultimately show "name ` set (topologicalSortSchemas schemas) = name ` set schemas" by blast
qed

lemma sort_set_distinct:
  assumes "distinct (map name schemas)"
  shows "set (topologicalSortSchemas schemas) = set schemas"
proof
  show "set (topologicalSortSchemas schemas) \<subseteq> set schemas"
    using sort_entries(2)[of schemas] by (auto dest!: bspec lastNamed_SomeD)
  show "set schemas \<subseteq> set (topologicalSortSchemas schemas)"
  proof
    fix s assume s: "s \<in> set schemas"
    then have "name s \<in> name ` set (topologicalSortSchemas schemas)"
      by (simp add: sort_entries(3))
    then obtain r where r: "r \<in> set (topologicalSortSchemas schemas)" "name r = name s"
      by auto
    from r(1) sort_entries(2) have "lastNamed (name r) schemas = Some r" by blast
    with r(2) lastNamed_distinct[OF assms s] have "r = s" by simp
    with r(1) show "s \<in> set (topologicalSortSchemas schemas)" by simp
  qed
qed

lemma sort_dependencyFirst:
  "dependencyFirst (buildSchemaMap schemas []) (topologicalSortSchemas schemas)"
proof -
  let ?m = "buildSchemaMap schemas []"
  let ?st0 = "\<lparr>result = [], visited = {}, visiting = {}\<rparr>"
  have "dependencyFirst ?m (result ?st0)" by (simp add: initial_dependencyFirst)
  moreover have "visiting ?st0 = {}" by simp
  ultimately have "dependencyFirst ?m (result (visitAllEntries ?m schemas ?st0))"
    using outer_dependencyFirst keyed_schemaMap initial_consistent by blast
  then show ?thesis by (simp add: sort_result)
qed

text \<open>The two scenarios of the specification, for any two entries of those shapes.\<close>

lemma sort_reference_pair:
  assumes "name a \<noteq> name b" "dependencies a = [name b]" "dependencies b = []"
  shows "topologicalSortSchemas [a, b] = [b, a]"
proof -
  let ?m = "[(name a, a), (name b, b)]"
  have m: "buildSchemaMap [a, b] [] = ?m" using assms(1) by (simp add: mapSet_def)
  have ga: "mapGet ?m (name a) = Some a" by (simp add: mapGet_def)
  have gb: "mapGet ?m (name b) = Some b" using assms(1) by (simp add: mapGet_def)
  have hb: "mapHas ?m (name b)" by (simp add: mapHas_def)
  have vb: "visit ?m (name b) \<lparr>result = [], visited = {}, visiting = {name a}\<rparr>
              = \<lparr>result = [b], visited = {name b}, visiting = {name a}\<rparr>"
    using assms by (subst visit.simps) (simp add: gb Let_def)
  have va: "visit ?m (name a) \<lparr>result = [], visited = {}, visiting = {}\<rparr>
              = \<lparr>result = [b, a], visited = {name a, name b}, visiting = {}\<rparr>"
    using assms by (subst visit.simps) (simp add: ga hb vb Let_def)
  have skip: "visit ?m (name b) \<lparr>result = [b, a], visited = {name a, name b}, visiting = {}\<rparr>
          = \<lparr>result = [b, a], visited = {name a, name b}, visiting = {}\<rparr>"
    by (subst visit.simps) simp
  show ?thesis unfolding topologicalSortSchemas_def m Let_def by (simp add: va skip)
qed

lemma sort_mutual_pair:
  assumes "name a \<noteq> name b" "dependencies a = [name b]" "dependencies b = [name a]"
  shows "topologicalSortSchemas [a, b] = [b, a]"
proof -
  let ?m = "[(name a, a), (name b, b)]"
  have m: "buildSchemaMap [a, b] [] = ?m" using assms(1) by (simp add: mapSet_def)
  have ga: "mapGet ?m (name a) = Some a" by (simp add: mapGet_def)
  have gb: "mapGet ?m (name b) = Some b" using assms(1) by (simp add: mapGet_def)
  have ha: "mapHas ?m (name a)" by (simp add: mapHas_def)
  have hb: "mapHas ?m (name b)" by (simp add: mapHas_def)
  have cut: "visit ?m (name a) \<lparr>result = [], visited = {}, visiting = {name b, name a}\<rparr>
              = \<lparr>result = [], visited = {}, visiting = {name b, name a}\<rparr>"
    by (subst visit.simps) simp
  have vb: "visit ?m (name b) \<lparr>result = [], visited = {}, visiting = {name a}\<rparr>
              = \<lparr>result = [b], visited = {name b}, visiting = {name a}\<rparr>"
    using assms by (subst visit.simps) (simp add: gb ha cut Let_def)
  have va: "visit ?m (name a) \<lparr>result = [], visited = {}, visiting = {}\<rparr>
              = \<lparr>result = [b, a], visited = {name a, name b}, visiting = {}\<rparr>"
    using assms by (subst visit.simps) (simp add: ga hb vb Let_def)
  have skip: "visit ?m (name b) \<lparr>result = [b, a], visited = {name a, name b}, visiting = {}\<rparr>
          = \<lparr>result = [b, a], visited = {name a, name b}, visiting = {}\<rparr>"
    by (subst visit.simps) simp
  show ?thesis unfolding topologicalSortSchemas_def m Let_def by (simp add: va skip)
qed

text \<open>
  Claim C1. For every input list with pairwise-distinct names and every pair of entries
  of the output of which the first stands before the second, the first does not depend
  on the second, or a dependency cycle exists between them: the second depends
  transitively on the first. In particular, for an entry \<open>a\<close> that references \<open>b\<close> and
  an entry \<open>b\<close> without dependencies the output is \<open>[b, a]\<close>.
\<close>

theorem topologicalSortSchemas_order:
  assumes "distinct (map name schemas)"
  shows "(\<forall>i j. i < j \<and> j < length (topologicalSortSchemas schemas) \<longrightarrow>
            name (topologicalSortSchemas schemas ! j)
              \<notin> set (dependencies (topologicalSortSchemas schemas ! i)) \<or>
            (name (topologicalSortSchemas schemas ! j), name (topologicalSortSchemas schemas ! i))
              \<in> (dependsOn schemas)\<^sup>+) \<and>
         (\<forall>a b. name a \<noteq> name b \<and> dependencies a = [name b] \<and> dependencies b = [] \<longrightarrow>
            topologicalSortSchemas [a, b] = [b, a])"
proof (intro conjI allI impI)
  fix i j
  let ?out = "topologicalSortSchemas schemas"
  let ?m = "buildSchemaMap schemas []"
  assume ij: "i < j \<and> j < length ?out"
  show "name (?out ! j) \<notin> set (dependencies (?out ! i)) \<or>
        (name (?out ! j), name (?out ! i)) \<in> (dependsOn schemas)\<^sup>+"
  proof (cases "name (?out ! j) \<in> set (dependencies (?out ! i))")
    case False
    then show ?thesis by simp
  next
    case True
    have dn: "distinct (map name ?out)" by (rule sort_entries(1))
    have neq: "name (?out ! k) \<noteq> name (?out ! j)" if "k < j" for k
      using distinct_map_nth[OF dn, of k j] that ij by simp
    have "?out ! j \<in> set ?out" using ij by simp
    then have "name (?out ! j) \<in> name ` set ?out" by (rule imageI)
    then have "name (?out ! j) \<in> name ` set schemas"
      by (simp only: sort_entries(3))
    then have has: "mapHas ?m (name (?out ! j))" by (simp add: mapHas_schemaMap)
    have il: "i < length ?out" using ij by simp
    from sort_dependencyFirst[of schemas]
    have "\<forall>d \<in> set (dependencies (?out ! i)). mapHas ?m d \<longrightarrow>
            (\<exists>k<i. name (?out ! k) = d) \<or> (d, name (?out ! i)) \<in> (mapDeps ?m)\<^sup>*"
      unfolding dependencyFirst_def using il by blast
    with True has
    have "(\<exists>k<i. name (?out ! k) = name (?out ! j)) \<or>
          (name (?out ! j), name (?out ! i)) \<in> (mapDeps ?m)\<^sup>*"
      by blast
    moreover have "\<not> (\<exists>k<i. name (?out ! k) = name (?out ! j))"
    proof
      assume "\<exists>k<i. name (?out ! k) = name (?out ! j)"
      then obtain k where "k < i" "name (?out ! k) = name (?out ! j)" by blast
      with neq[of k] ij show False by simp
    qed
    ultimately have rt: "(name (?out ! j), name (?out ! i)) \<in> (mapDeps ?m)\<^sup>*" by blast
    have ne: "name (?out ! j) \<noteq> name (?out ! i)" using neq[of i] ij by auto
    from rt ne have "(name (?out ! j), name (?out ! i)) \<in> (mapDeps ?m)\<^sup>+"
      by (auto dest: rtranclD)
    then have "(name (?out ! j), name (?out ! i)) \<in> (dependsOn schemas)\<^sup>+"
      by (rule trancl_mono[OF _ mapDeps_schemaMap])
    then show ?thesis by simp
  qed
next
  fix a b :: NamedSchemaIR
  assume "name a \<noteq> name b \<and> dependencies a = [name b] \<and> dependencies b = []"
  then show "topologicalSortSchemas [a, b] = [b, a]"
    by (simp add: sort_reference_pair)
qed

text \<open>
  Claim C2. For every input list with pairwise-distinct names the sort returns a list that
  holds each input entry exactly once, cycles or not; \<open>visit\<close> is a total function, its
  termination proved above, and no path of it raises. In particular two mutually
  recursive entries \<open>a\<close> and \<open>b\<close> come out as \<open>[b, a]\<close>.
\<close>

theorem topologicalSortSchemas_permutes:
  assumes "distinct (map name schemas)"
  shows "mset (topologicalSortSchemas schemas) = mset schemas \<and>
         distinct (topologicalSortSchemas schemas) \<and>
         length (topologicalSortSchemas schemas) = length schemas \<and>
         (\<forall>a b. name a \<noteq> name b \<and> dependencies a = [name b] \<and> dependencies b = [name a] \<longrightarrow>
            topologicalSortSchemas [a, b] = [b, a])"
proof -
  have d1: "distinct (topologicalSortSchemas schemas)"
    using sort_entries(1)[of schemas] by (simp add: distinct_map)
  have d2: "distinct schemas" using assms by (simp add: distinct_map)
  have m: "mset (topologicalSortSchemas schemas) = mset schemas"
    using sort_set_distinct[OF assms] d1 d2 by (simp add: set_eq_iff_mset_eq_distinct)
  have "size (mset (topologicalSortSchemas schemas)) = size (mset schemas)"
    by (simp only: m)
  then have l: "length (topologicalSortSchemas schemas) = length schemas" by simp
  have "\<forall>a b. name a \<noteq> name b \<and> dependencies a = [name b] \<and> dependencies b = [name a] \<longrightarrow>
            topologicalSortSchemas [a, b] = [b, a]"
    by (simp add: sort_mutual_pair)
  with m d1 l show ?thesis by blast
qed

lemma entry_simps:
  "entryA = \<lparr>name = ''A'', schema = KRef ''B'', dependencies = [''B''], category = None\<rparr>"
  "entryB = \<lparr>name = ''B'', schema = KString None, dependencies = [], category = None\<rparr>"
  "entryB_back = \<lparr>name = ''B'', schema = KRef ''A'', dependencies = [''A''], category = None\<rparr>"
  "entryP = \<lparr>name = ''P'', schema = KArray (KRef ''Y''), dependencies = [''Y''],
              category = None\<rparr>"
  "entryX = \<lparr>name = ''X'', schema = KBoolean, dependencies = [], category = None\<rparr>"
  "entryY = \<lparr>name = ''Y'', schema = KNumber None, dependencies = [], category = None\<rparr>"
  "entryX_refY = \<lparr>name = ''X'', schema = KRef ''Y'', dependencies = [''Y''],
                   category = None\<rparr>"
  by (simp_all add: entryA_def entryB_def entryB_back_def entryP_def entryX_def entryY_def
      entryX_refY_def createNamedSchema_def extractDependencies_def setDelete_def setAdd_def)

theorem topologicalSortSchemas_order_witness:
  "distinct (map name [entryA, entryB]) \<and>
   topologicalSortSchemas [entryA, entryB] = [entryB, entryA] \<and>
   distinct (map name [entryA, entryB_back]) \<and>
   topologicalSortSchemas [entryA, entryB_back] = [entryB_back, entryA] \<and>
   name entryA \<in> set (dependencies entryB_back) \<and>
   (name entryA, name entryB_back) \<in> (dependsOn [entryA, entryB_back])\<^sup>+"
proof -
  have h1: "distinct (map name [entryA, entryB])" by (simp add: entry_simps)
  have h2: "distinct (map name [entryA, entryB_back])" by (simp add: entry_simps)
  have o1: "topologicalSortSchemas [entryA, entryB] = [entryB, entryA]"
    using topologicalSortSchemas_order[OF h1] by (simp add: entry_simps)
  have o2: "topologicalSortSchemas [entryA, entryB_back] = [entryB_back, entryA]"
    by (simp add: sort_mutual_pair entry_simps)
  have d: "name entryA \<in> set (dependencies entryB_back)" by (simp add: entry_simps)
  from topologicalSortSchemas_order[OF h2]
  have "\<forall>i j. i < j \<and> j < length [entryB_back, entryA] \<longrightarrow>
            name ([entryB_back, entryA] ! j) \<notin> set (dependencies ([entryB_back, entryA] ! i)) \<or>
            (name ([entryB_back, entryA] ! j), name ([entryB_back, entryA] ! i))
              \<in> (dependsOn [entryA, entryB_back])\<^sup>+"
    unfolding o2 by blast
  then have "name ([entryB_back, entryA] ! 1) \<notin> set (dependencies ([entryB_back, entryA] ! 0)) \<or>
            (name ([entryB_back, entryA] ! 1), name ([entryB_back, entryA] ! 0))
              \<in> (dependsOn [entryA, entryB_back])\<^sup>+"
    by (metis One_nat_def length_Cons lessI list.size(3) zero_less_one)
  with d have "(name entryA, name entryB_back) \<in> (dependsOn [entryA, entryB_back])\<^sup>+"
    by simp
  with h1 h2 o1 o2 d show ?thesis by blast
qed

theorem topologicalSortSchemas_permutes_witness:
  "distinct (map name [entryA, entryB_back]) \<and>
   mset (topologicalSortSchemas [entryA, entryB_back]) = mset [entryA, entryB_back] \<and>
   topologicalSortSchemas [entryA, entryB_back] = [entryB_back, entryA]"
proof -
  have h: "distinct (map name [entryA, entryB_back])" by (simp add: entry_simps)
  from topologicalSortSchemas_permutes[OF h] show ?thesis
    using h by (simp add: entry_simps)
qed

lemma sort_entry_of_name:
  assumes "distinct (map name schemas)" "x \<in> set schemas"
    "r \<in> set (topologicalSortSchemas schemas)" "name r = name x"
  shows "r = x"
proof -
  from assms(3) sort_entries(2) have "lastNamed (name r) schemas = Some r" by blast
  with assms(4) lastNamed_distinct[OF assms(1,2)] show ?thesis by simp
qed

text \<open>
  Claim C3, as the code has it. The sort emits an entry when its visit completes, and the
  visit of an earlier entry may reach and emit a later one first. What holds: for an input
  with pairwise-distinct names, an entry \<open>x\<close> that stands before \<open>y\<close> in the input also
  stands before \<open>y\<close> in the output, provided \<open>y\<close> is reachable through dependencies
  neither from \<open>x\<close> nor from an entry that precedes \<open>x\<close> in the input.
\<close>

theorem topologicalSortSchemas_keeps_order:
  assumes "distinct (map name schemas)" and "i < j" and "j < length schemas"
    and "\<forall>k \<le> i. (name (schemas ! k), name (schemas ! j)) \<notin> (dependsOn schemas)\<^sup>*"
  shows "\<exists>p q. p < q \<and> q < length (topologicalSortSchemas schemas) \<and>
           topologicalSortSchemas schemas ! p = schemas ! i \<and>
           topologicalSortSchemas schemas ! q = schemas ! j"
proof -
  let ?m = "buildSchemaMap schemas []"
  let ?st0 = "\<lparr>result = [], visited = {}, visiting = {}\<rparr> :: SortState"
  let ?out = "topologicalSortSchemas schemas"
  define xs where "xs = take (Suc i) schemas"
  define ys where "ys = drop (Suc i) schemas"
  define st1 where "st1 = visitAllEntries ?m xs ?st0"
  have split: "schemas = xs @ ys" by (simp add: xs_def ys_def)
  have k: "keyed ?m" by (rule keyed_schemaMap)
  have c0: "consistent ?m ?st0" by (rule initial_consistent)
  have v0: "visiting ?st0 = {}" by simp
  from outer_consistent[OF k c0 v0, of xs]
  have c1: "consistent ?m st1" and v1: "visiting st1 = {}" by (simp_all add: st1_def)
  have fin: "visitAllEntries ?m schemas ?st0 = visitAllEntries ?m ys st1"
    using visitAllEntries_append[of ?m xs ys ?st0] split by (simp add: st1_def)
  from outer_consistent[OF k c1 v1, of ys] obtain zs
    where res: "result (visitAllEntries ?m ys st1) = result st1 @ zs" by blast
  have out: "?out = result st1 @ zs" by (simp add: sort_result fin res)
  have xi: "schemas ! i \<in> set xs"
    using assms(2,3) by (auto simp: xs_def in_set_conv_nth intro!: exI[of _ i])
  have xi_in: "schemas ! i \<in> set schemas" and yj_in: "schemas ! j \<in> set schemas"
    using assms(2,3) by simp_all
  have "mapHas ?m (name (schemas ! i))" using xi_in by (simp add: mapHas_schemaMap)
  with outer_visits[OF k c0 v0, of xs] xi
  have "name (schemas ! i) \<in> visited st1" by (auto simp: st1_def)
  then have "name (schemas ! i) \<in> name ` set (result st1)"
    using c1 by (simp add: consistent_def)
  then obtain r where r: "r \<in> set (result st1)" "name r = name (schemas ! i)" by auto
  then obtain p where p: "p < length (result st1)" "result st1 ! p = r"
    by (auto simp: in_set_conv_nth)
  have "r \<in> set ?out" using r(1) out by simp
  from sort_entry_of_name[OF assms(1) xi_in this r(2)] have rx: "r = schemas ! i" .
  have outp: "?out ! p = schemas ! i" using p rx out by (simp add: nth_append)
  have notyet: "name (schemas ! j) \<notin> visited st1"
  proof
    assume "name (schemas ! j) \<in> visited st1"
    with outer_reachable[OF k c0 v0, of xs]
    have "name (schemas ! j) \<in> (mapDeps ?m)\<^sup>* `` (name ` set xs)"
      by (auto simp: st1_def)
    then obtain x where x: "x \<in> set xs" "(name x, name (schemas ! j)) \<in> (mapDeps ?m)\<^sup>*"
      by auto
    from x(1) obtain k where kk: "k < length xs" "xs ! k = x" by (auto simp: in_set_conv_nth)
    then have "k \<le> i" "schemas ! k = x" by (auto simp: xs_def)
    moreover from x(2) have "(name x, name (schemas ! j)) \<in> (dependsOn schemas)\<^sup>*"
      using rtrancl_mono[OF mapDeps_schemaMap] by blast
    ultimately show False using assms(4) by blast
  qed
  have "name (schemas ! j) \<in> name ` set ?out" using yj_in by (simp add: sort_entries(3))
  then obtain t where t: "t \<in> set ?out" "name t = name (schemas ! j)" by auto
  from sort_entry_of_name[OF assms(1) yj_in t] have ty: "t = schemas ! j" .
  from t(1) obtain q where q: "q < length ?out" "?out ! q = t" by (auto simp: in_set_conv_nth)
  have "\<not> q < length (result st1)"
  proof
    assume "q < length (result st1)"
    then have "t \<in> set (result st1)" using q out by (auto simp: nth_append)
    then have "name t \<in> visited st1" using c1 by (simp add: consistent_def)
    with t(2) notyet show False by simp
  qed
  with p(1) have "p < q" by simp
  with q ty outp show ?thesis by blast
qed

lemma dependsOn_PXY: "dependsOn [entryP, entryX, entryY] = {(''P'', ''Y'')}"
  by (auto simp: dependsOn_def entry_simps)

lemma sort_PXY: "topologicalSortSchemas [entryP, entryX, entryY] = [entryY, entryP, entryX]"
  by (simp add: topologicalSortSchemas_def entry_simps mapSet_def mapGet_def mapHas_def
      visit.simps)

theorem topologicalSortSchemas_keeps_order_witness:
  "distinct (map name [entryX, entryP, entryY]) \<and>
   (\<exists>p q. p < q \<and> q < length (topologicalSortSchemas [entryX, entryP, entryY]) \<and>
      topologicalSortSchemas [entryX, entryP, entryY] ! p = entryX \<and>
      topologicalSortSchemas [entryX, entryP, entryY] ! q = entryP)"
proof -
  have h: "distinct (map name [entryX, entryP, entryY])" by (simp add: entry_simps)
  have d: "dependsOn [entryX, entryP, entryY] = {(''P'', ''Y'')}"
    by (auto simp: dependsOn_def entry_simps)
  have "(''X'', ''P'') \<notin> {(''P'', ''Y'')}\<^sup>*"
    by (auto elim: converse_rtranclE)
  then have r: "\<forall>k \<le> 0. (name ([entryX, entryP, entryY] ! k), name ([entryX, entryP, entryY] ! 1))
           \<notin> (dependsOn [entryX, entryP, entryY])\<^sup>*"
    unfolding d by (simp add: entry_simps)
  from topologicalSortSchemas_keeps_order[OF h _ _ r] h show ?thesis by simp
qed

text \<open>
  Claim C3 as stated fails. In the input \<open>[P, X, Y]\<close> neither of \<open>X\<close> and \<open>Y\<close> depends on
  the other, directly or transitively, and \<open>X\<close> stands before \<open>Y\<close>; the visit of \<open>P\<close>
  emits its dependency \<open>Y\<close> first, so the output is \<open>[Y, P, X]\<close>, with \<open>Y\<close> before \<open>X\<close>.
\<close>

theorem topologicalSortSchemas_reorders:
  "(name entryX, name entryY) \<notin> (dependsOn [entryP, entryX, entryY])\<^sup>+ \<and>
   (name entryY, name entryX) \<notin> (dependsOn [entryP, entryX, entryY])\<^sup>+ \<and>
   [entryP, entryX, entryY] ! 1 = entryX \<and> [entryP, entryX, entryY] ! 2 = entryY \<and>
   topologicalSortSchemas [entryP, entryX, entryY] ! 0 = entryY \<and>
   topologicalSortSchemas [entryP, entryX, entryY] ! 2 = entryX"
proof -
  have a: "(''X'', ''Y'') \<notin> {(''P'', ''Y'')}\<^sup>+" by (auto dest: tranclD)
  have b: "(''Y'', ''X'') \<notin> {(''P'', ''Y'')}\<^sup>+" by (auto dest: tranclD)
  from a b show ?thesis
    by (simp add: dependsOn_PXY sort_PXY) (simp add: entry_simps)
qed

section \<open>Colliding names\<close>

lemma filter_distinct_key:
  "distinct (map f xs) \<Longrightarrow> x \<in> set xs \<Longrightarrow> filter (\<lambda>y. f y = f x) xs = [x]"
proof (induction xs)
  case Nil
  then show ?case by simp
next
  case (Cons a xs)
  show ?case
  proof (cases "a = x")
    case True
    with Cons.prems(1) have "f x \<notin> f ` set xs" by simp
    then have "\<forall>y \<in> set xs. f y \<noteq> f x" by (metis imageI)
    then have "filter (\<lambda>y. f y = f x) xs = []" by (simp add: filter_empty_conv)
    with True show ?thesis by simp
  next
    case False
    with Cons.prems have x: "x \<in> set xs" and "f a \<noteq> f x" by auto
    with Cons show ?thesis by simp
  qed
qed

lemma sort_length: "length (topologicalSortSchemas schemas) = card (name ` set schemas)"
proof -
  have "length (topologicalSortSchemas schemas) = length (map name (topologicalSortSchemas schemas))"
    by simp
  also have "\<dots> = card (set (map name (topologicalSortSchemas schemas)))"
    using sort_entries(1)[of schemas] by (simp only: distinct_card)
  also have "\<dots> = card (name ` set schemas)"
    using sort_entries(3)[of schemas] by simp
  finally show ?thesis .
qed

lemma sort_last_entry:
  assumes "lastNamed n schemas = Some e"
  shows "filter (\<lambda>s. name s = n) (topologicalSortSchemas schemas) = [e]"
proof -
  from lastNamed_SomeD[OF assms] have ne: "name e = n" and "e \<in> set schemas" by auto
  then have "n \<in> name ` set (topologicalSortSchemas schemas)"
    by (auto simp: sort_entries(3))
  then obtain r where r: "r \<in> set (topologicalSortSchemas schemas)" "name r = n" by auto
  with sort_entries(2) have "lastNamed (name r) schemas = Some r" by blast
  with r(2) assms have "r = e" by simp
  with r(1) have "e \<in> set (topologicalSortSchemas schemas)" by simp
  from filter_distinct_key[OF sort_entries(1) this] ne show ?thesis by simp
qed

lemma update_fresh: "k \<notin> fst ` set al \<Longrightarrow> AList.update k v al = al @ [(k, v)]"
  by (induction al) auto

lemma update_entries:
  "(k', v') \<in> set (AList.update k v al) \<Longrightarrow> (k', v') = (k, v) \<or> (k', v') \<in> set al"
  by (induction al) (auto split: if_splits)

lemma buildSchemaMap_keys:
  "map fst (buildSchemaMap ss acc) =
     map fst acc @ firstOccurrences (fst ` set acc) (map name ss)"
proof (induction ss arbitrary: acc)
  case Nil
  then show ?case by simp
next
  case (Cons s ss)
  show ?case
  proof (cases "name s \<in> fst ` set acc")
    case True
    then have "map fst (mapSet (name s) s acc) = map fst acc"
      by (simp add: mapSet_def update_keys)
    moreover from this have "fst ` set (mapSet (name s) s acc) = fst ` set acc"
      by (metis list.set_map)
    ultimately show ?thesis using True by (simp add: Cons.IH)
  next
    case False
    then have "mapSet (name s) s acc = acc @ [(name s, s)]"
      by (simp add: mapSet_def update_fresh)
    with False show ?thesis by (simp add: Cons.IH)
  qed
qed

lemma buildSchemaMap_entries:
  "\<forall>p \<in> set acc. name (snd p) = fst p \<Longrightarrow>
     \<forall>p \<in> set (buildSchemaMap ss acc). name (snd p) = fst p"
proof (induction ss arbitrary: acc)
  case Nil
  then show ?case by simp
next
  case (Cons s ss)
  have "\<forall>p \<in> set (mapSet (name s) s acc). name (snd p) = fst p"
  proof
    fix p assume "p \<in> set (mapSet (name s) s acc)"
    then have "p = (name s, s) \<or> p \<in> set acc"
      using update_entries[of "fst p" "snd p" "name s" s acc] by (simp add: mapSet_def)
    with Cons.prems show "name (snd p) = fst p" by auto
  qed
  from Cons.IH[OF this] show ?case by simp
qed

lemma buildSchemaMap_distinct:
  "distinct (map fst acc) \<Longrightarrow> distinct (map fst (buildSchemaMap ss acc))"
  by (induction ss arbitrary: acc) (simp_all add: mapSet_def distinct_update)

lemma buildSchemaMap_fresh:
  "distinct (map name ss) \<Longrightarrow> name ` set ss \<inter> fst ` set acc = {} \<Longrightarrow>
     buildSchemaMap ss acc = acc @ map (\<lambda>s. (name s, s)) ss"
proof (induction ss arbitrary: acc)
  case Nil
  then show ?case by simp
next
  case (Cons s ss)
  from Cons.prems(2) have f: "name s \<notin> fst ` set acc" by auto
  then have u: "mapSet (name s) s acc = acc @ [(name s, s)]"
    by (simp add: mapSet_def update_fresh)
  have "name ` set ss \<inter> fst ` set (acc @ [(name s, s)]) = {}"
    using Cons.prems by auto
  with Cons.IH[of "acc @ [(name s, s)]"] Cons.prems(1) u show ?case by simp
qed

text \<open>
  The values of the map, in the order of its keys: every name once, at the place of its
  first occurrence in the input, with the last entry that bears it.
\<close>

lemma schemaMap_values:
  "map name (map snd (buildSchemaMap schemas [])) = firstOccurrences {} (map name schemas)"
  "buildSchemaMap (map snd (buildSchemaMap schemas [])) [] = buildSchemaMap schemas []"
proof -
  let ?M = "buildSchemaMap schemas []"
  have e: "\<forall>p \<in> set ?M. name (snd p) = fst p"
    using buildSchemaMap_entries[of "[]" schemas] by simp
  then have n: "map name (map snd ?M) = map fst ?M" by simp
  have keys: "map fst ?M = firstOccurrences {} (map name schemas)"
    using buildSchemaMap_keys[of schemas "[]"] by simp
  show "map name (map snd ?M) = firstOccurrences {} (map name schemas)"
    unfolding n by (rule keys)
  have df: "distinct (map fst ?M)" using buildSchemaMap_distinct[of "[]" schemas] by simp
  have dn: "distinct (map name (map snd ?M))" unfolding n by (rule df)
  have "name ` set (map snd ?M) \<inter> fst ` set ([] :: SchemaMap) = {}" by simp
  from buildSchemaMap_fresh[OF dn this]
  have "buildSchemaMap (map snd ?M) [] = map (\<lambda>s. (name s, s)) (map snd ?M)" by simp
  also have "\<dots> = map (\<lambda>p. (name (snd p), snd p)) ?M" by simp
  also have "\<dots> = map (\<lambda>p. p) ?M" using e by (intro map_cong) auto
  finally show "buildSchemaMap (map snd ?M) [] = ?M" by simp
qed

text \<open>In the outer loop a name that came before is skipped: it is visited already.\<close>

lemma outer_skips_repeats:
  "keyed m \<Longrightarrow> consistent m st \<Longrightarrow> visiting st = {} \<Longrightarrow> seen \<subseteq> visited st \<Longrightarrow>
     \<forall>s \<in> set ss. mapHas m (name s) \<Longrightarrow>
     map name ts = firstOccurrences seen (map name ss) \<Longrightarrow>
     visitAllEntries m ss st = visitAllEntries m ts st"
proof (induction ss arbitrary: st seen ts)
  case Nil
  then show ?case by simp
next
  case (Cons s ss)
  show ?case
  proof (cases "name s \<in> seen")
    case True
    with Cons.prems(4) have "visit m (name s) st = st" by (auto simp: visit_skip)
    moreover have "map name ts = firstOccurrences seen (map name ss)"
      using Cons.prems(6) True by simp
    ultimately show ?thesis
      using Cons.IH[OF Cons.prems(1,2,3,4) _ \<open>map name ts = firstOccurrences seen (map name ss)\<close>]
        Cons.prems(5) by simp
  next
    case False
    with Cons.prems(6) obtain t ts' where ts: "ts = t # ts'" "name t = name s"
      "map name ts' = firstOccurrences (insert (name s) seen) (map name ss)"
      by (cases ts) auto
    define st' where "st' = visit m (name s) st"
    have c: "consistent m st'"
      using consistent_preserved(1)[OF Cons.prems(1,2)] by (simp add: st'_def)
    have v: "visiting st' = {}" using Cons.prems(3) by (simp add: st'_def visiting_preserved)
    have "mapHas m (name s)" using Cons.prems(5) by simp
    from visit_visits[OF Cons.prems(1,2) this] Cons.prems(3)
    have "name s \<in> visited st'" by (simp add: st'_def)
    moreover have "visited st \<subseteq> visited st'"
      using visited_mono(1)[OF Cons.prems(1,2)] by (simp add: st'_def)
    ultimately have sub: "insert (name s) seen \<subseteq> visited st'" using Cons.prems(4) by auto
    have rest: "\<forall>x \<in> set ss. mapHas m (name x)" using Cons.prems(5) by simp
    from Cons.IH[OF Cons.prems(1) c v sub rest ts(3)]
    show ?thesis using ts by (simp add: st'_def)
  qed
qed

lemma sort_collapsed:
  "topologicalSortSchemas schemas = topologicalSortSchemas (map snd (buildSchemaMap schemas []))"
proof -
  let ?M = "buildSchemaMap schemas []"
  let ?st0 = "\<lparr>result = [], visited = {}, visiting = {}\<rparr> :: SortState"
  have has: "\<forall>s \<in> set schemas. mapHas ?M (name s)" by (simp add: mapHas_schemaMap)
  have "{} \<subseteq> visited ?st0" by simp
  from outer_skips_repeats[OF keyed_schemaMap initial_consistent _ this has schemaMap_values(1)]
  have "visitAllEntries ?M schemas ?st0 = visitAllEntries ?M (map snd ?M) ?st0" by simp
  then show ?thesis
    by (simp add: sort_result schemaMap_values(2))
qed

text \<open>
  The sort against the order of first visits. With \<open>visited\<close> and \<open>visiting\<close> taken
  together as the entered names, a visit adds to the result the entries of exactly the
  names that the walk of first visits lists, in that order.
\<close>

lemma firstVisits_entered: "E \<subseteq> fst (firstVisits S E ns)"
proof (induction S E ns rule: firstVisits.induct)
  case (1 S E)
  then show ?case by simp
next
  case (2 S E n ns)
  show ?case
  proof (cases "n \<in> E \<or> lastNamed n S = None")
    case True
    then show ?thesis using 2 by auto
  next
    case False
    then obtain s where s: "n \<notin> E" "lastNamed n S = Some s" by auto
    obtain E1 o1 where r1: "firstVisits S (insert n E) (dependencies s) = (E1, o1)"
      by (cases "firstVisits S (insert n E) (dependencies s)")
    obtain E2 o2 where r2: "firstVisits S E1 ns = (E2, o2)"
      by (cases "firstVisits S E1 ns")
    from "2.IH"(3)[OF s] r1 have a: "insert n E \<subseteq> E1" by simp
    from "2.IH"(4)[OF s r1[symmetric]] r2 have b: "E1 \<subseteq> E2" by simp
    have "firstVisits S E (n # ns) = (E2, o1 @ [n] @ o2)"
      using s r1 r2 by simp
    with a b show ?thesis by auto
  qed
qed

lemma firstVisits_Cons:
  "firstVisits S E (n # ns) =
     (case firstVisits S E [n] of (E1, o1) \<Rightarrow>
        (case firstVisits S E1 ns of (E2, o2) \<Rightarrow> (E2, o1 @ o2)))"
  by (simp split: option.splits prod.splits)

lemma firstVisits_skip:
  "n \<in> E \<or> lastNamed n S = None \<Longrightarrow> firstVisits S E [n] = (E, [])"
  by auto

lemma firstVisits_enter:
  assumes "n \<notin> E" "lastNamed n S = Some s"
  shows "firstVisits S E [n] =
           (fst (firstVisits S (insert n E) (dependencies s)),
            snd (firstVisits S (insert n E) (dependencies s)) @ [n])"
  using assms by (simp split: prod.splits)

lemma visit_firstVisits:
  "\<forall>k. mapGet m k = lastNamed k S \<Longrightarrow>
     visited (visit m nm st) \<union> visiting (visit m nm st)
       = fst (firstVisits S (visited st \<union> visiting st) [nm]) \<and>
     map name (result (visit m nm st))
       = map name (result st) @ snd (firstVisits S (visited st \<union> visiting st) [nm])"
  "\<forall>k. mapGet m k = lastNamed k S \<Longrightarrow>
     visited (visitDependencies m deps st) \<union> visiting (visitDependencies m deps st)
       = fst (firstVisits S (visited st \<union> visiting st) deps) \<and>
     map name (result (visitDependencies m deps st))
       = map name (result st) @ snd (firstVisits S (visited st \<union> visiting st) deps)"
proof (induction m nm st and m deps st rule: visit_visitDependencies.induct)
  case (1 m nm st)
  let ?E = "visited st \<union> visiting st"
  show ?case
  proof (cases "nm \<in> visited st \<or> nm \<in> visiting st \<or> mapGet m nm = None")
    case True
    then have "visit m nm st = st" by (rule visit_skip)
    moreover from True "1.prems" have "firstVisits S ?E [nm] = (?E, [])"
      by (intro firstVisits_skip) auto
    ultimately show ?thesis by simp
  next
    case False
    then obtain s where s: "nm \<notin> visited st" "nm \<notin> visiting st" "mapGet m nm = Some s"
      by auto
    define st1 where "st1 = st\<lparr>visiting := insert nm (visiting st)\<rparr>"
    define st2 where "st2 = visitDependencies m (dependencies s) st1"
    have l: "lastNamed nm S = Some s" using s "1.prems" by simp
    have nms: "name s = nm" using lastNamed_SomeD[OF l] by simp
    have e1: "visited st1 \<union> visiting st1 = insert nm ?E" by (auto simp: st1_def)
    from "1.IH"[OF s st1_def "1.prems"]
    have ih: "visited st2 \<union> visiting st2 = fst (firstVisits S (insert nm ?E) (dependencies s))"
      "map name (result st2)
         = map name (result st) @ snd (firstVisits S (insert nm ?E) (dependencies s))"
      unfolding e1 by (simp_all add: st2_def st1_def)
    have "insert nm ?E \<subseteq> fst (firstVisits S (insert nm ?E) (dependencies s))"
      by (rule firstVisits_entered)
    then have in2: "nm \<in> visited st2 \<union> visiting st2" using ih(1) by auto
    have eq: "visit m nm st = st2\<lparr>visiting := visiting st2 - {nm},
                    visited := insert nm (visited st2),
                    result := result st2 @ [s]\<rparr>"
      using visit_unfold[OF s] by (simp add: st2_def st1_def Let_def)
    have f: "firstVisits S ?E [nm] =
           (fst (firstVisits S (insert nm ?E) (dependencies s)),
            snd (firstVisits S (insert nm ?E) (dependencies s)) @ [nm])"
      using s l by (intro firstVisits_enter) auto
    have a: "visited (visit m nm st) \<union> visiting (visit m nm st)
               = visited st2 \<union> visiting st2"
      unfolding eq using in2 by auto
    have b: "map name (result (visit m nm st)) = map name (result st2) @ [nm]"
      unfolding eq by (simp add: nms)
    show ?thesis unfolding a b f using ih by simp
  qed
next
  case (2 m st)
  then show ?case by simp
next
  case (3 m dep deps st)
  let ?E = "visited st \<union> visiting st"
  define st' where "st' = (if mapHas m dep then visit m dep st else st)"
  have step: "visited st' \<union> visiting st' = fst (firstVisits S ?E [dep]) \<and>
     map name (result st') = map name (result st) @ snd (firstVisits S ?E [dep])"
  proof (cases "mapHas m dep")
    case True
    then show ?thesis using "3.IH"(1) "3.prems" by (simp add: st'_def)
  next
    case False
    then have "lastNamed dep S = None" using "3.prems" by (simp add: mapHas_def mapGet_def)
    then have "firstVisits S ?E [dep] = (?E, [])" by (intro firstVisits_skip) simp
    then show ?thesis using False by (simp add: st'_def)
  qed
  from "3.IH"(2)[OF "3.prems"]
  have rest: "visited (visitDependencies m deps st') \<union> visiting (visitDependencies m deps st')
       = fst (firstVisits S (visited st' \<union> visiting st') deps)"
    "map name (result (visitDependencies m deps st'))
       = map name (result st') @ snd (firstVisits S (visited st' \<union> visiting st') deps)"
    by (simp_all add: st'_def)
  have v: "visitDependencies m (dep # deps) st = visitDependencies m deps st'"
    by (simp add: st'_def)
  show ?case
    unfolding v rest firstVisits_Cons[of S ?E dep deps] using step
    by (simp add: case_prod_beta)
qed

lemma outer_firstVisits:
  "\<forall>k. mapGet m k = lastNamed k S \<Longrightarrow>
     visited (visitAllEntries m ss st) \<union> visiting (visitAllEntries m ss st)
       = fst (firstVisits S (visited st \<union> visiting st) (map name ss)) \<and>
     map name (result (visitAllEntries m ss st))
       = map name (result st) @ snd (firstVisits S (visited st \<union> visiting st) (map name ss))"
proof (induction ss arbitrary: st)
  case Nil
  then show ?case by simp
next
  case (Cons s ss)
  let ?E = "visited st \<union> visiting st"
  let ?st = "visit m (name s) st"
  from visit_firstVisits(1)[OF Cons.prems, of "name s" st]
  have step: "visited ?st \<union> visiting ?st = fst (firstVisits S ?E [name s])"
    "map name (result ?st) = map name (result st) @ snd (firstVisits S ?E [name s])"
    by simp_all
  from Cons.IH[OF Cons.prems, of ?st]
  have rest: "visited (visitAllEntries m ss ?st) \<union> visiting (visitAllEntries m ss ?st)
       = fst (firstVisits S (visited ?st \<union> visiting ?st) (map name ss))"
    "map name (result (visitAllEntries m ss ?st))
       = map name (result ?st) @ snd (firstVisits S (visited ?st \<union> visiting ?st) (map name ss))"
    by simp_all
  have v: "visitAllEntries m (s # ss) st = visitAllEntries m ss ?st" by simp
  have n: "map name (s # ss) = name s # map name ss" by simp
  show ?case
    unfolding v n rest firstVisits_Cons[of S ?E "name s" "map name ss"] using step
    by (simp add: case_prod_beta)
qed

lemma sort_firstVisitOrder:
  "map name (topologicalSortSchemas schemas) = firstVisitOrder schemas"
proof -
  have "\<forall>k. mapGet (buildSchemaMap schemas []) k = lastNamed k schemas"
    by (simp add: mapGet_schemaMap)
  from outer_firstVisits[OF this, of schemas "\<lparr>result = [], visited = {}, visiting = {}\<rparr>"]
  show ?thesis
    by (simp add: topologicalSortSchemas_def firstVisitOrder_def Let_def)
qed

text \<open>
  Claim C10. When two or more entries of the input share a name, the output holds, for
  every name of the input, exactly one entry of that name, the last input entry that
  bears it; the output is strictly shorter than the input. The names of the output are
  the order of first visits of the input: each entry stands where the first visit of its
  name returns. The output is also what the sort gives the list that holds each name
  once, at the place of its first occurrence, with that last entry. The function is
  total: nothing is raised.
\<close>

theorem topologicalSortSchemas_collisions:
  assumes "\<not> distinct (map name schemas)"
  shows "(\<forall>n \<in> name ` set schemas. \<exists>e. lastNamed n schemas = Some e \<and>
            filter (\<lambda>s. name s = n) (topologicalSortSchemas schemas) = [e]) \<and>
         name ` set (topologicalSortSchemas schemas) = name ` set schemas \<and>
         length (topologicalSortSchemas schemas) < length schemas \<and>
         map name (topologicalSortSchemas schemas) = firstVisitOrder schemas \<and>
         topologicalSortSchemas schemas
           = topologicalSortSchemas (map snd (buildSchemaMap schemas [])) \<and>
         map name (map snd (buildSchemaMap schemas []))
           = firstOccurrences {} (map name schemas) \<and>
         (\<forall>e \<in> set (map snd (buildSchemaMap schemas [])). lastNamed (name e) schemas = Some e)"
proof (intro conjI)
  show "\<forall>n \<in> name ` set schemas. \<exists>e. lastNamed n schemas = Some e \<and>
            filter (\<lambda>s. name s = n) (topologicalSortSchemas schemas) = [e]"
  proof
    fix n assume "n \<in> name ` set schemas"
    then have "lastNamed n schemas \<noteq> None" by (simp add: lastNamed_None)
    then obtain e where e: "lastNamed n schemas = Some e" by auto
    with sort_last_entry[OF e]
    show "\<exists>e. lastNamed n schemas = Some e \<and>
            filter (\<lambda>s. name s = n) (topologicalSortSchemas schemas) = [e]"
      by blast
  qed
  show "name ` set (topologicalSortSchemas schemas) = name ` set schemas"
    by (rule sort_entries(3))
  have "card (set (map name schemas)) \<noteq> length (map name schemas)"
    using assms card_distinct by blast
  moreover have "card (set (map name schemas)) \<le> length (map name schemas)"
    by (rule card_length)
  ultimately show "length (topologicalSortSchemas schemas) < length schemas"
    by (simp add: sort_length)
  show "map name (topologicalSortSchemas schemas) = firstVisitOrder schemas"
    by (rule sort_firstVisitOrder)
  show "topologicalSortSchemas schemas
           = topologicalSortSchemas (map snd (buildSchemaMap schemas []))"
    by (rule sort_collapsed)
  show "map name (map snd (buildSchemaMap schemas []))
           = firstOccurrences {} (map name schemas)"
    by (rule schemaMap_values(1))
  show "\<forall>e \<in> set (map snd (buildSchemaMap schemas [])). lastNamed (name e) schemas = Some e"
  proof
    fix e assume "e \<in> set (map snd (buildSchemaMap schemas []))"
    then obtain k where ke: "(k, e) \<in> set (buildSchemaMap schemas [])" by auto
    have "distinct (map fst (buildSchemaMap schemas []))"
      using buildSchemaMap_distinct[of "[]" schemas] by simp
    with ke have "mapGet (buildSchemaMap schemas []) k = Some e"
      by (simp add: mapGet_def)
    then have l: "lastNamed k schemas = Some e" by (simp add: mapGet_schemaMap)
    with lastNamed_SomeD[OF l] show "lastNamed (name e) schemas = Some e" by simp
  qed
qed

theorem topologicalSortSchemas_collisions_witness:
  "\<not> distinct (map name [entryX, entryP, entryY, entryX_refY]) \<and>
   firstVisitOrder [entryX, entryP, entryY, entryX_refY] = [''Y'', ''X'', ''P''] \<and>
   lastNamed ''X'' [entryX, entryP, entryY, entryX_refY] = Some entryX_refY \<and>
   topologicalSortSchemas [entryX, entryP, entryY, entryX_refY]
     = [entryY, entryX_refY, entryP] \<and>
   filter (\<lambda>s. name s = ''X'') (topologicalSortSchemas [entryX, entryP, entryY, entryX_refY])
     = [entryX_refY] \<and>
   length (topologicalSortSchemas [entryX, entryP, entryY, entryX_refY])
     < length [entryX, entryP, entryY, entryX_refY] \<and>
   map snd (buildSchemaMap [entryX, entryP, entryY, entryX_refY] [])
     = [entryX_refY, entryP, entryY]"
proof -
  let ?S = "[entryX, entryP, entryY, entryX_refY]"
  let ?out = "topologicalSortSchemas ?S"
  have h: "\<not> distinct (map name ?S)" by (simp add: entry_simps)
  have m: "map snd (buildSchemaMap ?S []) = [entryX_refY, entryP, entryY]"
    by (simp add: mapSet_def entry_simps)
  have lx: "lastNamed ''X'' ?S = Some entryX_refY"
    and ly: "lastNamed ''Y'' ?S = Some entryY"
    and lp: "lastNamed ''P'' ?S = Some entryP"
    by (simp_all add: lastNamed_def entry_simps)
  have fv: "firstVisitOrder ?S = [''Y'', ''X'', ''P'']"
    by (simp add: firstVisitOrder_def lastNamed_def entry_simps)
  note t = topologicalSortSchemas_collisions[OF h]
  from t have a: "\<forall>n \<in> name ` set ?S. \<exists>e. lastNamed n ?S = Some e \<and>
            filter (\<lambda>s. name s = n) ?out = [e]"
    by (rule conjunct1)
  from t have b: "length ?out < length ?S"
    by (rule conjunct1[OF conjunct2[OF conjunct2]])
  from t have c: "map name ?out = firstVisitOrder ?S"
    by (rule conjunct1[OF conjunct2[OF conjunct2[OF conjunct2]]])
  have nx: "''X'' \<in> name ` set ?S" and ny: "''Y'' \<in> name ` set ?S"
    and np: "''P'' \<in> name ` set ?S"
    by (simp_all add: entry_simps)
  from a nx lx have fx: "filter (\<lambda>s. name s = ''X'') ?out = [entryX_refY]" by auto
  from a ny ly have fy: "filter (\<lambda>s. name s = ''Y'') ?out = [entryY]" by auto
  from a np lp have fp: "filter (\<lambda>s. name s = ''P'') ?out = [entryP]" by auto
  from c fv obtain e1 e2 e3 where o: "?out = [e1, e2, e3]"
    and n: "name e1 = ''Y''" "name e2 = ''X''" "name e3 = ''P''"
    by (auto simp: map_eq_Cons_conv)
  from fy have "e1 = entryY" unfolding o by (simp add: n)
  moreover from fx have "e2 = entryX_refY" unfolding o by (simp add: n)
  moreover from fp have "e3 = entryP" unfolding o by (simp add: n)
  ultimately have out: "?out = [entryY, entryX_refY, entryP]" using o by simp
  from h fv lx out fx b m show ?thesis by (intro conjI)
qed

section \<open>Properties of optional and nullish emission\<close>





end
